theory Spec2Isabelle
  imports Complex_Main "HOL-Library.Word" "HOL-Library.Sublist" "HOL-Library.Log_Nat"
begin

chapter \<open>Chunked text-to-speech playback and the voice loop\<close>

text \<open>
  A shallow embedding of the playback code of \<^verbatim>\<open>src/App.tsx\<close>
  (\<^verbatim>\<open>handlePlayMessage\<close> with its one call site, the play button of a message,
  \<^verbatim>\<open>playChunk\<close>, \<^verbatim>\<open>resetApp\<close> and the mounting of the voice agent), of
  \<^verbatim>\<open>generateSpeechFromText\<close> and \<^verbatim>\<open>playPCMData\<close> (\<^verbatim>\<open>src/services\<close>) and of the
  callbacks of \<^verbatim>\<open>src/components/VoiceAgent.tsx\<close>.

  Conventions. A JavaScript string is a \<^typ>\<open>string\<close>: one \<^typ>\<open>char\<close> per UTF-16 code
  unit, restricted to the code units below 256, and \<^verbatim>\<open>.length\<close> is \<^const>\<open>length\<close>.
  \<^verbatim>\<open>undefined\<close> and \<^verbatim>\<open>null\<close> are \<^const>\<open>None\<close>. A finite float is the real number it
  stands for, and an operation on floats rounds its exact result. An exception that
  leaves a function is the \<^const>\<open>Inl\<close> of a sum. Every \<^verbatim>\<open>await\<close> is a point where the
  model stops and returns a continuation, which an event resumes later.
\<close>

section \<open>Exceptions\<close>

datatype js_error =
    InvalidCharacterError  \<comment> \<open>\<^verbatim>\<open>atob\<close> on a string that is not base64\<close>
  | RangeError             \<comment> \<open>\<^verbatim>\<open>DataView.getInt16\<close> outside the buffer\<close>
  | NotSupportedError      \<comment> \<open>\<^verbatim>\<open>createBuffer\<close> with a length of zero\<close>
  | ConstructorError       \<comment> \<open>whatever \<^verbatim>\<open>new GoogleGenAI\<close> may throw\<close>

section \<open>Base64 and PCM decoding\<close>

type_synonym byte = "8 word"

text \<open>
  \<^verbatim>\<open>atob\<close> is the platform's forgiving base64 decoder: ASCII whitespace is removed, one
  or two trailing \<^verbatim>\<open>=\<close> are dropped when the length is a multiple of four, a length of
  \<open>1\<close> modulo \<open>4\<close> or a character outside the alphabet is an \<^const>\<open>InvalidCharacterError\<close>
  (here \<^const>\<open>None\<close>), and every four characters give three bytes.
\<close>

definition is_ascii_whitespace :: "char \<Rightarrow> bool" where
  "is_ascii_whitespace c \<longleftrightarrow> (of_char c :: nat) \<in> {9, 10, 12, 13, 32}"

definition b64_value :: "char \<Rightarrow> nat option" where
  "b64_value c =
     (let n = (of_char c :: nat) in
      if 65 \<le> n \<and> n \<le> 90 then Some (n - 65)
      else if 97 \<le> n \<and> n \<le> 122 then Some (n - 71)
      else if 48 \<le> n \<and> n \<le> 57 then Some (n + 4)
      else if n = 43 then Some 62
      else if n = 47 then Some 63
      else None)"

definition strip_padding :: "string \<Rightarrow> string" where
  "strip_padding d =
     (if length d mod 4 = 0 then
        (if 2 \<le> length d \<and> drop (length d - 2) d = ''=='' then take (length d - 2) d
         else if 1 \<le> length d \<and> last d = CHR ''='' then butlast d
         else d)
      else d)"

fun b64_bytes :: "nat list \<Rightarrow> byte list" where
  "b64_bytes (a # b # c # d # rest) =
     (let n = ((a * 64 + b) * 64 + c) * 64 + d
      in of_nat (n div 65536) # of_nat (n div 256 mod 256) # of_nat (n mod 256) # b64_bytes rest)"
| "b64_bytes [a, b, c] =
     (let n = ((a * 64 + b) * 64 + c) div 4
      in [of_nat (n div 256), of_nat (n mod 256)])"
| "b64_bytes [a, b] = [of_nat ((a * 64 + b) div 16)]"
| "b64_bytes [a] = []"
| "b64_bytes [] = []"

definition atob :: "string \<Rightarrow> byte list option" where
  "atob data =
     (let d = strip_padding (filter (\<lambda>c. \<not> is_ascii_whitespace c) data) in
      if length d mod 4 = 1 then None
      else if list_ex (\<lambda>c. b64_value c = None) d then None
      else Some (b64_bytes (map (\<lambda>c. the (b64_value c)) d)))"

text \<open>
  \<^verbatim>\<open>dataView.getInt16(off, true)\<close>: the two bytes at \<open>off\<close>, low byte first, read as a
  two's complement 16-bit number; a \<^const>\<open>RangeError\<close> outside the buffer.
\<close>

definition getInt16 :: "byte list \<Rightarrow> nat \<Rightarrow> js_error + int" where
  "getInt16 bytes off =
     (if off + 2 \<le> length bytes
      then Inr (sint (word_cat (bytes ! (off + 1)) (bytes ! off) :: 16 word))
      else Inl RangeError)"

text \<open>
  The numbers of the language are IEEE 754 double-precision floats, and an element of a
  \<^verbatim>\<open>Float32Array\<close> is a single-precision float: a division rounds its exact quotient to
  the nearest double, and the store into the array rounds that double to the nearest
  single, in both cases with ties to the even significand. A finite float is a real
  number, so rounding is a function on the reals: \<open>p\<close> is the number of bits of the
  significand and \<open>emin\<close> the exponent of the smallest normal float, below which the
  spacing of the floats stays that of the subnormals. The quotients of the decoder are at
  most \<open>1\<close> in magnitude, so the overflow to infinity does not occur (the lemma
  \<open>quotient_range\<close> below).
\<close>

definition round_half_even :: "real \<Rightarrow> int" where
  "round_half_even x =
     (let f = \<lfloor>x\<rfloor> in
      if x - of_int f < 1 / 2 then f
      else if 1 / 2 < x - of_int f then f + 1
      else if even f then f else f + 1)"

text \<open>
  The power \<open>2\<^sup>e\<close> for an integer \<open>e\<close>, and the binary exponent of a real number other
  than \<open>0\<close>: the integer \<open>e\<close> with \<open>2\<^sup>e \<le> \<bar>x\<bar> < 2\<^sup>e\<^sup>+\<^sup>1\<close>, from the number of bits of the
  integer part of \<open>\<bar>x\<bar>\<close> or of its inverse.
\<close>

definition pow2 :: "int \<Rightarrow> real" where
  "pow2 e = (if 0 \<le> e then 2 ^ nat e else 1 / 2 ^ nat (- e))"

definition exponent :: "real \<Rightarrow> int" where
  "exponent x =
     (if 1 \<le> \<bar>x\<bar> then bitlen \<lfloor>\<bar>x\<bar>\<rfloor> - 1 else - bitlen (\<lceil>1 / \<bar>x\<bar>\<rceil> - 1))"

definition ieee_round :: "nat \<Rightarrow> int \<Rightarrow> real \<Rightarrow> real" where
  "ieee_round p emin x =
     (if x = 0 then 0
      else
        (let e = max (exponent x) emin;
             ulp = pow2 (e - int p + 1)
         in of_int (round_half_even (x / ulp)) * ulp))"

definition binary64 :: "real \<Rightarrow> real" where
  "binary64 x = ieee_round 53 (- 1022) x"

definition binary32 :: "real \<Rightarrow> real" where
  "binary32 x = ieee_round 24 (- 126) x"

text \<open>
  \<^verbatim>\<open>float32Data[i] = int16 < 0 ? int16 / 32768 : int16 / 32767\<close>: the division in double
  precision, the store in single precision.
\<close>

definition to_float :: "int \<Rightarrow> real" where
  "to_float int16 =
     binary32 (if int16 < 0 then binary64 (real_of_int int16 / 32768)
               else binary64 (real_of_int int16 / 32767))"

text \<open>The loop \<^verbatim>\<open>for (let i = 0; i < float32Data.length; i++)\<close>, over the list of indices.\<close>

fun fillSamples :: "byte list \<Rightarrow> nat list \<Rightarrow> js_error + real list" where
  "fillSamples bytes [] = Inr []"
| "fillSamples bytes (i # is) =
     (case getInt16 bytes (i * 2) of
        Inl e \<Rightarrow> Inl e
      | Inr int16 \<Rightarrow>
          (case fillSamples bytes is of
             Inl e \<Rightarrow> Inl e
           | Inr rest \<Rightarrow> Inr (to_float int16 # rest)))"

text \<open>
  The decode step shared, line for line, by \<^verbatim>\<open>playChunk\<close> and \<^verbatim>\<open>playPCMData\<close>.
  \<^verbatim>\<open>new Float32Array(bytes.length / 2)\<close> truncates its argument to an integer
  (\<^verbatim>\<open>ToIndex\<close>), hence \<^const>\<open>divide\<close> on \<^typ>\<open>nat\<close>.
\<close>

definition decodePCM :: "string \<Rightarrow> js_error + real list" where
  "decodePCM base64PCM =
     (case atob base64PCM of
        None \<Rightarrow> Inl InvalidCharacterError
      | Some bytes \<Rightarrow> fillSamples bytes [0 ..< length bytes div 2])"

text \<open>
  The reading of a sample in the words of the specification: the little-endian signed
  16-bit value of a low and a high byte.
\<close>

definition le_int16 :: "byte \<Rightarrow> byte \<Rightarrow> int" where
  "le_int16 lo hi =
     (let u = uint lo + 256 * uint hi in if u < 32768 then u else u - 65536)"

section \<open>The synthesis client\<close>

text \<open>The part of the service's response that \<^verbatim>\<open>generateSpeechFromText\<close> reads.\<close>

record Blob =
  data :: "string option"









section \<open>Strings and regular expressions\<close>

text \<open>
  What \<^verbatim>\<open>String.prototype.trim\<close> removes: the white space and line terminators of
  JavaScript among the code units below 256 (tab, line feed, vertical tab, form feed,
  carriage return, space, no-break space).
\<close>

definition is_space :: "char \<Rightarrow> bool" where
  "is_space c \<longleftrightarrow> (of_char c :: nat) \<in> {9, 10, 11, 12, 13, 32, 160}"

definition trim :: "string \<Rightarrow> string" where
  "trim s = rev (dropWhile is_space (rev (dropWhile is_space s)))"

text \<open>
  A regular expression is modelled by its matcher at the head of a string: the length of
  the match that starts there, if there is one. Every expression of the source matches at
  least one character. \<open>replace_all\<close> is \<^verbatim>\<open>s.replace(re, '')\<close> and \<open>match_all\<close> is
  \<^verbatim>\<open>s.match(re)\<close>, both for an expression with the flag \<^verbatim>\<open>g\<close>: the string is scanned
  from the left, a match is removed (or collected) and the scan goes on behind it,
  a position without a match is stepped over.
\<close>

fun replace_all :: "(string \<Rightarrow> nat option) \<Rightarrow> string \<Rightarrow> string" where
  "replace_all m [] = []"
| "replace_all m (c # cs) =
     (case m (c # cs) of
        Some n \<Rightarrow> replace_all m (drop (n - 1) cs)
      | None \<Rightarrow> c # replace_all m cs)"

fun match_all :: "(string \<Rightarrow> nat option) \<Rightarrow> string \<Rightarrow> string list" where
  "match_all m [] = []"
| "match_all m (c # cs) =
     (case m (c # cs) of
        Some n \<Rightarrow> take n (c # cs) # match_all m (drop (n - 1) cs)
      | None \<Rightarrow> match_all m cs)"

text \<open>A literal, such as \<^verbatim>\<open>/\*\*/\<close>, \<^verbatim>\<open>/##/\<close> and the backquote.\<close>

definition m_literal :: "string \<Rightarrow> string \<Rightarrow> nat option" where
  "m_literal pat s = (if prefix pat s then Some (length pat) else None)"

text \<open>The position of the first occurrence of a literal.\<close>

fun index_of :: "string \<Rightarrow> string \<Rightarrow> nat option" where
  "index_of pat [] = (if pat = [] then Some 0 else None)"
| "index_of pat (c # cs) =
     (if prefix pat (c # cs) then Some 0 else map_option Suc (index_of pat cs))"

text \<open>
  \<^verbatim>\<open>/:::EXPORT_DATA=[\s\S]*?:::/\<close>: the opening literal, then as few characters as
  possible up to the next \<^verbatim>\<open>:::\<close>.
\<close>

definition m_export :: "string \<Rightarrow> nat option" where
  "m_export s =
     (if prefix '':::EXPORT_DATA='' s then
        (case index_of '':::'' (drop 15 s) of
           Some k \<Rightarrow> Some (15 + k + 3)
         | None \<Rightarrow> None)
      else None)"

text \<open>
  \<^verbatim>\<open>/\[.*?\]/\<close>: an opening bracket, then as few characters as possible, none of them a
  line terminator, up to the next closing bracket.
\<close>

definition is_line_terminator :: "char \<Rightarrow> bool" where
  "is_line_terminator c \<longleftrightarrow> (of_char c :: nat) \<in> {10, 13}"

fun bracket_close :: "string \<Rightarrow> nat option" where
  "bracket_close [] = None"
| "bracket_close (c # cs) =
     (if c = CHR '']'' then Some 0
      else if is_line_terminator c then None
      else map_option Suc (bracket_close cs))"

definition m_reference :: "string \<Rightarrow> nat option" where
  "m_reference s =
     (case s of
        [] \<Rightarrow> None
      | c # cs \<Rightarrow>
          (if c = CHR ''['' then
             (case bracket_close cs of Some k \<Rightarrow> Some (k + 2) | None \<Rightarrow> None)
           else None))"

text \<open>
  \<^verbatim>\<open>/[^.?!]+[.?!]+[\])'"]*|[^.?!]+$/\<close>. All three repetitions are greedy, and giving
  characters back never helps: behind a shorter body stands a character of the body, not
  a terminator. So the first alternative matches the longest body, the longest run of
  terminators behind it (at least one) and the longest run of closing characters; the
  second alternative matches a body that reaches the end of the string.
\<close>

definition is_terminator :: "char \<Rightarrow> bool" where
  "is_terminator c \<longleftrightarrow> c = CHR ''.'' \<or> c = CHR ''?'' \<or> c = CHR ''!''"

definition is_closer :: "char \<Rightarrow> bool" where
  "is_closer c \<longleftrightarrow> c = CHR '']'' \<or> c = CHR '')'' \<or> c = CHR 0x27 \<or> c = CHR 0x22"

definition m_sentence :: "string \<Rightarrow> nat option" where
  "m_sentence s =
     (let body = takeWhile (\<lambda>c. \<not> is_terminator c) s;
          r1 = dropWhile (\<lambda>c. \<not> is_terminator c) s;
          punct = takeWhile is_terminator r1;
          closers = takeWhile is_closer (dropWhile is_terminator r1)
      in if body = [] then None
         else if punct \<noteq> [] then Some (length body + length punct + length closers)
         else if r1 = [] then Some (length body)
         else None)"

section \<open>Cleaning and chunking the text of a message\<close>

text \<open>Step 1 of \<^verbatim>\<open>handlePlayMessage\<close>: the chain of five replacements, then \<^verbatim>\<open>trim\<close>.\<close>

definition cleanText :: "string \<Rightarrow> string" where
  "cleanText rawText =
     trim
       (replace_all (m_literal [CHR 0x60])
         (replace_all m_reference
           (replace_all (m_literal ''##'')
             (replace_all (m_literal ''**'')
               (replace_all m_export rawText)))))"

text \<open>\<^verbatim>\<open>cleanText.match(sentenceRegex) || [cleanText]\<close>\<close>

definition sentences :: "string \<Rightarrow> string list" where
  "sentences clean =
     (case match_all m_sentence clean of
        [] \<Rightarrow> [clean]
      | s # ss \<Rightarrow> s # ss)"

text \<open>
  The body of the \<^verbatim>\<open>forEach\<close>, on the pair of \<^verbatim>\<open>processedChunks\<close> and
  \<^verbatim>\<open>currentChunk\<close>.
\<close>

definition addSentence :: "string list \<times> string \<Rightarrow> string \<Rightarrow> string list \<times> string" where
  "addSentence acc sentence =
     (case acc of (chunks, currentChunk) \<Rightarrow>
        if length (currentChunk @ sentence) < 500
        then (chunks, currentChunk @ sentence @ '' '')
        else (if trim currentChunk \<noteq> [] then chunks @ [currentChunk] else chunks,
              sentence @ '' ''))"

definition flushChunk :: "string list \<times> string \<Rightarrow> string list" where
  "flushChunk acc =
     (case acc of (chunks, currentChunk) \<Rightarrow>
        if trim currentChunk \<noteq> [] then chunks @ [currentChunk] else chunks)"

definition chunkSentences :: "string list \<Rightarrow> string list" where
  "chunkSentences ss = flushChunk (foldl addSentence ([], []) ss)"

definition processedChunks :: "string \<Rightarrow> string list" where
  "processedChunks rawText = chunkSentences (sentences (cleanText rawText))"

text \<open>A chunk that holds the sentences \<open>g\<close> whole, each followed by the injected space.\<close>

definition joinSentences :: "string list \<Rightarrow> string" where
  "joinSentences g = concat (map (\<lambda>s. s @ '' '') g)"

section \<open>The audio output device\<close>

text \<open>
  The one physical output. \<open>active\<close> holds the handles of the buffer sources that render
  audio now, whatever \<^verbatim>\<open>AudioContext\<close> they belong to; \<open>created\<close> counts the sources
  made so far and is the handle of the next one. \<^verbatim>\<open>source.start()\<close> adds a source,
  \<^verbatim>\<open>source.stop()\<close> and the end of its buffer remove it.
\<close>

record device =
  active :: "nat set"
  created :: nat

definition start_source :: "'a device_scheme \<Rightarrow> 'a device_scheme" where
  "start_source d = d\<lparr>active := insert (created d) (active d), created := Suc (created d)\<rparr>"

definition stop_source :: "nat \<Rightarrow> 'a device_scheme \<Rightarrow> 'a device_scheme" where
  "stop_source n d = d\<lparr>active := active d - {n}\<rparr>"

text \<open>\<^verbatim>\<open>if (audioData)\<close>: a string is truthy when it is defined and not empty.\<close>

definition truthy :: "string option \<Rightarrow> bool" where
  "truthy a \<longleftrightarrow> (case a of None \<Rightarrow> False | Some s \<Rightarrow> s \<noteq> [])"

section \<open>The chunked playback pipeline of App\<close>

text \<open>
  The state and the refs of \<^verbatim>\<open>App\<close> that playback uses, on top of the device.
  A request id is \<^verbatim>\<open>Date.now().toString()\<close>: the reading of the clock in milliseconds,
  kept as the number it prints. \<open>synthCalls\<close> records the texts sent to
  \<^verbatim>\<open>generateSpeechFromText\<close>, one entry per network call.
\<close>

record app = device +
  activeRequestRef :: "nat option"
  currentSourceRef :: "nat option"
  playingMessageId :: "string option"
  loadingMessageId :: "string option"
  isPlaying :: bool
  synthCalls :: "string list"

text \<open>
  What the button of a message shows (\<^verbatim>\<open>Preparing...\<close>, \<^verbatim>\<open>Playing...\<close> or the idle
  icon), and when the button is not \<^verbatim>\<open>disabled\<close>.
\<close>

datatype play_status = Idle | Loading | Playing

definition statusOf :: "app \<Rightarrow> string \<Rightarrow> play_status" where
  "statusOf st m =
     (if loadingMessageId st = Some m then Loading
      else if playingMessageId st = Some m then Playing
      else Idle)"

definition playEnabled :: "app \<Rightarrow> string \<Rightarrow> bool" where
  "playEnabled st m \<longleftrightarrow>
     \<not> ((playingMessageId st \<noteq> None \<and> playingMessageId st \<noteq> Some m) \<or>
        loadingMessageId st = Some m)"

text \<open>
  One call of \<^verbatim>\<open>handlePlayMessage\<close> in flight: the constants of its closure and the
  \<^verbatim>\<open>await\<close> it is suspended at. \<open>playingSeen\<close> is the value of the state variable
  \<^verbatim>\<open>playingMessageId\<close> in the render that created the handler: the closure keeps it,
  whatever the state becomes later.
\<close>

datatype pc =
    AwaitResume          \<comment> \<open>\<^verbatim>\<open>await audioContext.resume()\<close>\<close>
  | AwaitFetch nat       \<comment> \<open>\<^verbatim>\<open>await generateSpeechFromText(chunk)\<close>, chunk \<open>i\<close>\<close>
  | AwaitPlay nat nat    \<comment> \<open>\<^verbatim>\<open>await playChunk(...)\<close>, chunk \<open>i\<close>, source \<open>n\<close>\<close>
  | Done                 \<comment> \<open>the call has returned\<close>
  | Raised               \<comment> \<open>the call has ended with an exception\<close>

record task =
  requestId :: nat
  msgId :: string
  playingSeen :: "string option"
  chunks :: "string list"
  pc :: pc

text \<open>\<^verbatim>\<open>currentSourceRef.current?.stop()\<close>\<close>

definition stopCurrent :: "app \<Rightarrow> app" where
  "stopCurrent st = (case currentSourceRef st of None \<Rightarrow> st | Some n \<Rightarrow> stop_source n st)"

text \<open>The three setters that put the buttons back to idle.\<close>

definition resetPlayback :: "app \<Rightarrow> app" where
  "resetPlayback st = st\<lparr>playingMessageId := None, loadingMessageId := None, isPlaying := False\<rparr>"

text \<open>
  \<^verbatim>\<open>resetApp\<close>, as far as playback goes: the three setters, then
  \<^verbatim>\<open>currentSourceRef.current?.stop()\<close>. It leaves \<^verbatim>\<open>activeRequestRef\<close> as it is.
\<close>

definition resetApp :: "app \<Rightarrow> app" where
  "resetApp st = stopCurrent (resetPlayback st)"

text \<open>The \<^verbatim>\<open>finally\<close> block.\<close>

definition finallyBlock :: "task \<Rightarrow> app \<Rightarrow> app" where
  "finallyBlock t st =
     (if activeRequestRef st = Some (requestId t) then resetPlayback st else st)"

text \<open>
  The \<^verbatim>\<open>for\<close> loop from its head at index \<open>i\<close>, over the chunks from \<open>i\<close> on, up to the
  next \<^verbatim>\<open>await\<close> or to the end of the function: the check of the token (\<^verbatim>\<open>return\<close>,
  through \<^verbatim>\<open>finally\<close>), the check of the closure's \<^verbatim>\<open>playingMessageId\<close>
  (\<^verbatim>\<open>break\<close>), the blank chunk (\<^verbatim>\<open>continue\<close>), the call of the synthesis service.
\<close>

fun loopFrom :: "task \<Rightarrow> nat \<Rightarrow> string list \<Rightarrow> app \<Rightarrow> app \<times> pc" where
  "loopFrom t i [] st = (finallyBlock t st, Done)"
| "loopFrom t i (chunk # rest) st =
     (if activeRequestRef st \<noteq> Some (requestId t) then (finallyBlock t st, Done)
      else if playingSeen t \<noteq> Some (msgId t) \<and> 0 < i then (finallyBlock t st, Done)
      else if trim chunk = [] then loopFrom t (Suc i) rest st
      else (st\<lparr>synthCalls := synthCalls st @ [chunk]\<rparr>, AwaitFetch i))"

definition loopAt :: "task \<Rightarrow> nat \<Rightarrow> app \<Rightarrow> app \<times> pc" where
  "loopAt t i st = loopFrom t i (drop i (chunks t)) st"

text \<open>
  \<^verbatim>\<open>playChunk\<close>, up to the start of the source. The promise resolves at once when the
  token is stale, rejects when decoding or \<^verbatim>\<open>createBuffer\<close> throws, and otherwise
  stays pending until \<^verbatim>\<open>onended\<close>.
\<close>

datatype play_result = Started nat | ResolvedAtOnce | Threw js_error

definition playChunk :: "string \<Rightarrow> nat \<Rightarrow> app \<Rightarrow> app \<times> play_result" where
  "playChunk base64PCM rid st =
     (if activeRequestRef st \<noteq> Some rid then (st, ResolvedAtOnce)
      else
        (case decodePCM base64PCM of
           Inl e \<Rightarrow> (st, Threw e)
         | Inr float32Data \<Rightarrow>
             if float32Data = [] then (st, Threw NotSupportedError)
             else ((start_source st)\<lparr>currentSourceRef := Some (created st)\<rparr>,
                   Started (created st))))"

text \<open>The continuation behind \<^verbatim>\<open>await generateSpeechFromText(chunk)\<close> for chunk \<open>i\<close>.\<close>

definition onFetched :: "task \<Rightarrow> nat \<Rightarrow> string option \<Rightarrow> app \<Rightarrow> app \<times> pc" where
  "onFetched t i audioData st =
     (if activeRequestRef st \<noteq> Some (requestId t) then (finallyBlock t st, Done)
      else if truthy audioData then
        (let st1 = (if i = 0 then st\<lparr>loadingMessageId := None, isPlaying := True\<rparr> else st)
         in case playChunk (the audioData) (requestId t) st1 of
              (st2, Started n) \<Rightarrow> (st2, AwaitPlay i n)
            | (st2, ResolvedAtOnce) \<Rightarrow> loopAt t (Suc i) st2
            | (st2, Threw e) \<Rightarrow> (finallyBlock t st2, Done))
      else loopAt t (Suc i) st)"

text \<open>
  The continuation behind \<^verbatim>\<open>await playChunk(...)\<close>: \<^verbatim>\<open>onended\<close> has fired, the source
  renders nothing any more (its buffer is over, or it was stopped).
\<close>

definition onEnded :: "task \<Rightarrow> nat \<Rightarrow> nat \<Rightarrow> app \<Rightarrow> app \<times> pc" where
  "onEnded t i n st = loopAt t (Suc i) (stop_source n st)"

text \<open>
  What resumes a suspended call. \<^verbatim>\<open>await audioContext.resume()\<close> stands before the
  \<^verbatim>\<open>try\<close>: when it rejects, the call ends there with that exception and nothing else
  runs. The other two \<^verbatim>\<open>await\<close>s stand inside: an exception goes to \<^verbatim>\<open>catch\<close>,
  which logs it, and then to \<^verbatim>\<open>finally\<close>.
\<close>

datatype signal =
    ContextResumed               \<comment> \<open>\<^verbatim>\<open>audioContext.resume()\<close> resolved\<close>
  | ContextRejected              \<comment> \<open>\<^verbatim>\<open>audioContext.resume()\<close> rejected\<close>
  | SpeechReady "string option"  \<comment> \<open>\<^verbatim>\<open>generateSpeechFromText\<close> returned this value\<close>
  | SpeechRejected               \<comment> \<open>\<^verbatim>\<open>generateSpeechFromText\<close> raised\<close>
  | SourceEnded                  \<comment> \<open>\<^verbatim>\<open>onended\<close> of the source fired\<close>

definition resume :: "signal \<Rightarrow> task \<Rightarrow> app \<Rightarrow> app \<times> task" where
  "resume sig t st =
     (case (pc t, sig) of
        (AwaitResume, ContextResumed) \<Rightarrow>
          (case loopAt t 0 st of (st', p) \<Rightarrow> (st', t\<lparr>pc := p\<rparr>))
      | (AwaitResume, ContextRejected) \<Rightarrow> (st, t\<lparr>pc := Raised\<rparr>)
      | (AwaitFetch i, SpeechReady audioData) \<Rightarrow>
          (case onFetched t i audioData st of (st', p) \<Rightarrow> (st', t\<lparr>pc := p\<rparr>))
      | (AwaitFetch i, SpeechRejected) \<Rightarrow> (finallyBlock t st, t\<lparr>pc := Done\<rparr>)
      | (AwaitPlay i n, SourceEnded) \<Rightarrow>
          (case onEnded t i n st of (st', p) \<Rightarrow> (st', t\<lparr>pc := p\<rparr>))
      | _ \<Rightarrow> (st, t))"

text \<open>
  \<^verbatim>\<open>handlePlayMessage(msgId, rawText)\<close>, up to its first \<^verbatim>\<open>await\<close>. The first two
  arguments are the values of \<^verbatim>\<open>playingMessageId\<close> and \<^verbatim>\<open>isPlaying\<close> that the
  closure holds, \<open>suspended\<close> tells whether the audio context is suspended, \<open>now\<close> is the
  reading of \<^verbatim>\<open>Date.now()\<close>. The chunks depend on the text alone, so they are computed
  when the task is made.
\<close>

definition handlePlayMessage ::
  "string option \<Rightarrow> bool \<Rightarrow> bool \<Rightarrow> string \<Rightarrow> string \<Rightarrow> nat \<Rightarrow> app \<Rightarrow> app \<times> task" where
  "handlePlayMessage playingSeen' isPlayingSeen suspended msgId' rawText now st =
     (let st1 = st\<lparr>activeRequestRef := Some now\<rparr>;
          t = \<lparr>requestId = now, msgId = msgId', playingSeen = playingSeen',
               chunks = processedChunks rawText, pc = Done\<rparr>
      in if playingSeen' = Some msgId' \<and> isPlayingSeen
         then (resetPlayback (stopCurrent st1), t)
         else
           (let st2 = stopCurrent st1;
                st3 = st2\<lparr>playingMessageId := Some msgId', loadingMessageId := Some msgId',
                          isPlaying := False\<rparr>
            in if suspended then (st3, t\<lparr>pc := AwaitResume\<rparr>)
               else (case loopAt t 0 st3 of (st4, p) \<Rightarrow> (st4, t\<lparr>pc := p\<rparr>))))"

text \<open>
  The pipeline as a transition system: the state of \<^verbatim>\<open>App\<close> and the calls made so far.
  \<^verbatim>\<open>handlePlayMessage\<close> has one call site, the \<^verbatim>\<open>onClick\<close> of the play button of a
  message, and the button is \<^verbatim>\<open>disabled\<close> while the message loads or another message
  plays: a click on a disabled button calls nothing. A click that is delivered runs the
  handler of the latest render, whose closure holds the state of that render. A signal
  resumes the call with the given index. \<open>Reset\<close> is a click on one of the controls that
  call \<^verbatim>\<open>resetApp\<close>.
\<close>

datatype event = Play string string nat bool | Signal nat signal | Reset

definition step :: "event \<Rightarrow> app \<times> task list \<Rightarrow> app \<times> task list" where
  "step e s =
     (case s of (st, ts) \<Rightarrow>
        (case e of
           Play m rawText now suspended \<Rightarrow>
             if playEnabled st m
             then (case handlePlayMessage (playingMessageId st) (isPlaying st) suspended m rawText now st
                   of (st', t) \<Rightarrow> (st', ts @ [t]))
             else (st, ts)
         | Signal k sig \<Rightarrow>
             if k < length ts
             then (case resume sig (ts ! k) st of (st', t') \<Rightarrow> (st', ts[k := t']))
             else (st, ts)
         | Reset \<Rightarrow> (resetApp st, ts)))"

definition run :: "event list \<Rightarrow> app \<times> task list \<Rightarrow> app \<times> task list" where
  "run es s = foldl (\<lambda>s e. step e s) s es"

definition initial :: "app \<times> task list" where
  "initial =
     (\<lparr>active = {}, created = 0, activeRequestRef = None, currentSourceRef = None,
       playingMessageId = None, loadingMessageId = None, isPlaying = False, synthCalls = []\<rparr>,
      [])"



text \<open>
  Two facts that hold of every state the pipeline reaches. When \<^verbatim>\<open>playingMessageId\<close>
  is set, the message loads or \<^verbatim>\<open>isPlaying\<close> is true. And a call whose closure holds
  its own message id in \<^verbatim>\<open>playingMessageId\<close> has returned: it took the branch that
  stops.
\<close>

definition ui_consistent :: "app \<Rightarrow> bool" where
  "ui_consistent st \<longleftrightarrow>
     playingMessageId st = None \<or> loadingMessageId st = playingMessageId st \<or> isPlaying st"

definition closures :: "app \<times> task list \<Rightarrow> bool" where
  "closures s =
     (case s of (st, ts) \<Rightarrow>
        list_all (\<lambda>t. playingSeen t \<noteq> Some (msgId t) \<or> pc t = Done) ts \<and> ui_consistent st)"

text \<open>
  What a continuation may leave behind when it changes nothing of the state that the
  calls share: the same state, with no source added to the ones that render audio.
\<close>

definition quiet :: "app \<Rightarrow> app \<Rightarrow> bool" where
  "quiet st st' \<longleftrightarrow> st' = st\<lparr>active := active st'\<rparr> \<and> active st' \<subseteq> active st"

section \<open>The voice agent\<close>

datatype voice_status = Listening | Processing | Synthesizing | Speaking | Error

text \<open>
  The state and refs of \<^verbatim>\<open>VoiceAgent\<close>. Every call of \<^verbatim>\<open>startListening\<close> makes a new
  recogniser object; \<open>recognizers\<close> tells for each whether its session runs.
  \<open>chatCalls\<close> and \<open>ttsCalls\<close> record the requests sent, \<open>timers\<close> counts the pending
  \<^verbatim>\<open>setTimeout\<close> callbacks.
\<close>

record voice =
  status :: voice_status
  transcript :: string
  aiResponseText :: string
  transcriptRef :: string
  recognizers :: "bool list"
  recognitionRef :: "nat option"
  audioContextRef :: bool
  chatCalls :: "string list"
  ttsCalls :: "string list"
  timers :: nat

text \<open>
  \<^verbatim>\<open>try { recognition.start() } catch (e) {}\<close>: \<^verbatim>\<open>start\<close> throws when the session
  runs already, and the exception is dropped.
\<close>

definition recognition_start :: "nat \<Rightarrow> voice \<Rightarrow> voice" where
  "recognition_start r v =
     (if r < length (recognizers v) \<and> \<not> recognizers v ! r
      then v\<lparr>recognizers := (recognizers v)[r := True]\<rparr>
      else v)"

definition startListening :: "bool \<Rightarrow> voice \<Rightarrow> voice" where
  "startListening supported v =
     (if \<not> supported
      then v\<lparr>status := Error, aiResponseText := ''Speech recognition not supported.''\<rparr>
      else
        (let r = length (recognizers v)
         in recognition_start r (v\<lparr>recognizers := recognizers v @ [False], recognitionRef := Some r\<rparr>)))"

definition onstart :: "voice \<Rightarrow> voice" where
  "onstart v = v\<lparr>status := Listening, transcriptRef := [], transcript := []\<rparr>"



text \<open>\<^verbatim>\<open>handleUserQuery\<close>, up to \<^verbatim>\<open>await chat.sendMessage\<close>.\<close>

definition handleUserQuery :: "string \<Rightarrow> voice \<Rightarrow> voice" where
  "handleUserQuery t v = v\<lparr>status := Processing, chatCalls := chatCalls v @ [t]\<rparr>"

text \<open>
  \<^verbatim>\<open>onend\<close> of recogniser \<open>r\<close>. The engine fires \<^verbatim>\<open>end\<close> when the session of \<open>r\<close> is
  over; the handler then reads the transcript and either hands it on or starts \<open>r\<close> again.
\<close>

definition onend :: "nat \<Rightarrow> voice \<Rightarrow> voice" where
  "onend r v =
     (let v1 = v\<lparr>recognizers := (recognizers v)[r := False]\<rparr>;
          t = transcriptRef v1
      in if t \<noteq> [] \<and> 0 < length (trim t) then handleUserQuery t v1
         else recognition_start r v1)"

text \<open>\<^verbatim>\<open>onerror\<close>: \<^verbatim>\<open>no-speech\<close> is ignored, any other code is logged.\<close>

definition onerror :: "string \<Rightarrow> voice \<Rightarrow> voice" where
  "onerror code v = (if code = ''no-speech'' then v else v)"









text \<open>The initial values of the state and of the refs of \<^verbatim>\<open>VoiceAgent\<close>.\<close>

definition voiceInitial :: voice where
  "voiceInitial =
     \<lparr>status = Listening, transcript = [], aiResponseText = [], transcriptRef = [],
      recognizers = [], recognitionRef = None, audioContextRef = False,
      chatCalls = [], ttsCalls = [], timers = 0\<rparr>"

section \<open>The application: both components on the one device\<close>











section \<open>Concrete inputs\<close>

text \<open>
  A sentence of 301 characters, and a text of three of them: each is a chunk of its own,
  since two of them together pass the bound of 500.
\<close>

definition longSentence :: "char \<Rightarrow> string" where
  "longSentence c = replicate 300 c @ ''.''"

definition threeSentences :: string where
  "threeSentences =
     longSentence CHR ''a'' @ '' '' @ longSentence CHR ''b'' @ '' '' @ longSentence CHR ''c''"

text \<open>
  The voice agent when it is mounted with a recogniser: the initial values of its state,
  then the effect, \<^verbatim>\<open>startListening()\<close> and a new audio context.
\<close>

definition voiceMounted :: voice where
  "voiceMounted = (startListening True voiceInitial)\<lparr>audioContextRef := True\<rparr>"


section \<open>Decoding: lemmas\<close>

lemma uint_cat16: "uint (word_cat (hi::byte) (lo::byte) :: 16 word) = uint lo + 256 * uint hi"
proof -
  have lo: "0 \<le> uint lo" "uint lo < 256" using uint_bounded [of lo] by simp_all
  have hi: "0 \<le> uint hi" "uint hi < 256" using uint_bounded [of hi] by simp_all
  have "uint (word_cat hi lo :: 16 word) = (concat_bit 8 (uint lo) (uint hi)) mod 2 ^ 16"
    by (simp add: word_cat_eq' uint_word_of_int)
  also have "concat_bit 8 (uint lo) (uint hi) = uint lo + 256 * uint hi"
    using lo by (simp add: concat_bit_eq take_bit_eq_mod push_bit_eq_mult mult.commute)
  also have "(uint lo + 256 * uint hi) mod 2 ^ 16 = uint lo + 256 * uint hi"
    using lo hi by simp
  finally show ?thesis .
qed

lemma sint_cat16: "sint (word_cat (hi::byte) (lo::byte) :: 16 word) = le_int16 lo hi"
proof -
  define u where "u = uint lo + 256 * uint hi"
  have lo: "0 \<le> uint lo" "uint lo < 256" using uint_bounded [of lo] by simp_all
  have hi: "0 \<le> uint hi" "uint hi < 256" using uint_bounded [of hi] by simp_all
  have u: "0 \<le> u" "u < 65536" using lo hi by (simp_all add: u_def)
  have "sint (word_cat hi lo :: 16 word) = signed_take_bit 15 u"
    by (simp add: sint_uint uint_cat16 u_def)
  also have "\<dots> = (u + 32768) mod 65536 - 32768"
    by (simp add: signed_take_bit_eq_take_bit_shift take_bit_eq_mod)
  also have "\<dots> = (if u < 32768 then u else u - 65536)"
    using u by (auto simp: mod_pos_pos_trivial) (smt (verit) minus_mod_self2 mod_pos_pos_trivial)
  finally show ?thesis by (simp add: le_int16_def u_def Let_def)
qed

lemma le_int16_range: "- 32768 \<le> le_int16 lo hi \<and> le_int16 lo hi \<le> 32767"
proof -
  define a b where "a = uint lo" and "b = uint hi"
  have "0 \<le> a" "a < 256" "0 \<le> b" "b < 256"
    using uint_bounded [of lo] uint_bounded [of hi] by (simp_all add: a_def b_def)
  then have "- 32768 \<le> (let u = a + 256 * b in if u < 32768 then u else u - 65536) \<and>
      (let u = a + 256 * b in if u < 32768 then u else u - 65536) \<le> 32767"
    by (auto simp: Let_def)
  then show ?thesis
    unfolding le_int16_def a_def b_def .
qed

text \<open>Rounding to a float.\<close>

lemma rhe_int [simp]: "round_half_even (of_int n) = n"
  by (simp add: round_half_even_def)

lemma rhe_err: "\<bar>of_int (round_half_even y) - y\<bar> \<le> 1 / 2"
  unfolding round_half_even_def Let_def by (auto simp: abs_if) linarith+

lemma rhe_le: "y \<le> of_int N \<Longrightarrow> round_half_even y \<le> N"
  unfolding round_half_even_def Let_def
  by (auto simp: floor_le_iff le_floor_iff)

lemma rhe_ge: "of_int N \<le> y \<Longrightarrow> N \<le> round_half_even y"
  unfolding round_half_even_def Let_def
  by (auto simp: le_floor_iff) linarith+

lemma pow2_powr: "pow2 e = 2 powr of_int e"
proof (cases "0 \<le> e")
  case True
  then have "(2::real) powr of_int e = 2 powr real (nat e)" by simp
  also have "\<dots> = 2 ^ nat e" by (rule powr_realpow) simp
  finally show ?thesis using True by (simp add: pow2_def)
next
  case False
  then have "(2::real) powr of_int e = 2 powr (- real (nat (- e)))" by simp
  also have "\<dots> = 1 / 2 powr real (nat (- e))" by (rule powr_minus_divide)
  also have "(2::real) powr real (nat (- e)) = 2 ^ nat (- e)" by (rule powr_realpow) simp
  finally show ?thesis using False by (simp add: pow2_def)
qed

lemma floor_log2:
  assumes "2 powr of_int e \<le> x" "x < 2 powr of_int (e + 1)"
  shows "\<lfloor>log 2 x\<rfloor> = e"
proof -
  have "0 < x" using assms(1) by (smt (verit) powr_gt_zero)
  then show ?thesis using assms by (simp add: floor_log_eq_powr_iff)
qed

lemma exponent_log:
  assumes "x \<noteq> 0"
  shows "exponent x = \<lfloor>log 2 \<bar>x\<bar>\<rfloor>"
proof (cases "1 \<le> \<bar>x\<bar>")
  case True
  define n where "n = \<lfloor>\<bar>x\<bar>\<rfloor>"
  define b where "b = bitlen n"
  have n: "0 < n" using True by (simp add: n_def)
  from bitlen_bounds [OF n] have lo: "2 ^ nat (b - 1) \<le> n" and hi: "n < 2 ^ nat b"
    by (simp_all add: b_def)
  have b1: "1 \<le> b" using n by (simp add: b_def bitlen_alt_def)
  have "2 powr of_int (b - 1) = (2::real) ^ nat (b - 1)"
    using b1 pow2_powr [of "b - 1"] by (simp add: pow2_def)
  also have "\<dots> = of_int (2 ^ nat (b - 1))" by simp
  also have "\<dots> \<le> of_int n" using lo by (simp only: of_int_le_iff)
  also have "\<dots> \<le> \<bar>x\<bar>" by (simp add: n_def)
  finally have 1: "2 powr of_int (b - 1) \<le> \<bar>x\<bar>" .
  have "\<bar>x\<bar> < of_int (n + 1)" by (simp add: n_def)
  also have "n + 1 \<le> 2 ^ nat b" using hi by simp
  then have "(of_int (n + 1) :: real) \<le> of_int (2 ^ nat b)" by (simp only: of_int_le_iff)
  also have "(of_int (2 ^ nat b) :: real) = 2 powr of_int b"
    using b1 pow2_powr [of b] by (simp add: pow2_def)
  finally have 2: "\<bar>x\<bar> < 2 powr of_int (b - 1 + 1)" by simp
  from floor_log2 [OF 1 2] show ?thesis using True by (simp add: exponent_def n_def b_def)
next
  case False
  define y where "y = 1 / \<bar>x\<bar>"
  define n where "n = \<lceil>y\<rceil> - 1"
  define b where "b = bitlen n"
  have x: "0 < \<bar>x\<bar>" "\<bar>x\<bar> < 1" using False assms by simp_all
  have y: "1 < y" using x by (simp add: y_def)
  then have n: "0 < n" by (simp add: n_def less_ceiling_iff)
  from bitlen_bounds [OF n] have lo: "2 ^ nat (b - 1) \<le> n" and hi: "n < 2 ^ nat b"
    by (simp_all add: b_def)
  have b1: "1 \<le> b" using n by (simp add: b_def bitlen_alt_def)
  have "(2::real) ^ nat (b - 1) = of_int (2 ^ nat (b - 1))" by simp
  also have "\<dots> \<le> of_int n" using lo by (simp only: of_int_le_iff)
  also have "\<dots> < y" by (simp add: n_def) linarith
  finally have ylo: "2 ^ nat (b - 1) < y" .
  have "y \<le> of_int (n + 1)" by (simp add: n_def)
  also have "n + 1 \<le> 2 ^ nat b" using hi by simp
  then have "(of_int (n + 1) :: real) \<le> of_int (2 ^ nat b)" by (simp only: of_int_le_iff)
  finally have yhi: "y \<le> 2 ^ nat b" by simp
  have ax: "\<bar>x\<bar> = 1 / y" using x by (simp add: y_def)
  have "2 powr of_int (- b) = 1 / (2::real) ^ nat b"
    using b1 pow2_powr [of "- b"] by (simp add: pow2_def)
  also have "\<dots> \<le> 1 / y" using yhi y by (intro divide_left_mono) simp_all
  finally have 1: "2 powr of_int (- b) \<le> \<bar>x\<bar>" using ax by simp
  have "1 / y < 1 / 2 ^ nat (b - 1)" using ylo y by (intro divide_strict_left_mono) simp_all
  also have "\<dots> = 2 powr of_int (- b + 1)"
  proof (cases "b = 1")
    case True
    then show ?thesis by simp
  next
    case False
    then have "- b + 1 < 0" using b1 by simp
    then show ?thesis using pow2_powr [of "- b + 1"] by (simp add: pow2_def)
  qed
  finally have 2: "\<bar>x\<bar> < 2 powr of_int (- b + 1)" using ax by simp
  from floor_log2 [OF 1 2] show ?thesis using False by (simp add: exponent_def y_def n_def b_def)
qed

lemma ieee_round_unfold:
  assumes "x \<noteq> 0"
  shows "ieee_round p emin x =
     of_int (round_half_even (x / 2 powr of_int (max \<lfloor>log 2 \<bar>x\<bar>\<rfloor> emin - int p + 1))) *
       2 powr of_int (max \<lfloor>log 2 \<bar>x\<bar>\<rfloor> emin - int p + 1)"
  using assms by (simp add: ieee_round_def Let_def pow2_powr exponent_log)

lemma ieee_round_err:
  assumes "x \<noteq> 0"
  shows "\<bar>ieee_round p emin x - x\<bar> \<le> 2 powr of_int (max \<lfloor>log 2 \<bar>x\<bar>\<rfloor> emin - int p + 1) / 2"
proof -
  define U where "U = (2::real) powr of_int (max \<lfloor>log 2 \<bar>x\<bar>\<rfloor> emin - int p + 1)"
  have U: "0 < U" by (simp add: U_def)
  have "ieee_round p emin x = of_int (round_half_even (x / U)) * U"
    unfolding ieee_round_unfold [OF assms] U_def ..
  then have "ieee_round p emin x - x = (of_int (round_half_even (x / U)) - x / U) * U"
    using U by (simp add: algebra_simps)
  then have "\<bar>ieee_round p emin x - x\<bar> = \<bar>of_int (round_half_even (x / U)) - x / U\<bar> * U"
    using U by (simp add: abs_mult)
  also have "\<dots> \<le> (1 / 2) * U"
    using rhe_err [of "x / U"] U by (intro mult_right_mono) simp_all
  finally show ?thesis by (simp add: U_def)
qed

lemma ieee_round_exact:
  assumes x: "x = of_int m * 2 powr of_int k" and m: "m \<noteq> 0" "\<bar>m\<bar> < 2 ^ p"
    and k: "emin - int p + 1 \<le> k"
  shows "ieee_round p emin x = x"
proof -
  define E where "E = max \<lfloor>log 2 \<bar>x\<bar>\<rfloor> emin"
  define U where "U = (2::real) powr of_int (E - int p + 1)"
  have x0: "x \<noteq> 0" using x m by simp
  have ax: "\<bar>x\<bar> = of_int \<bar>m\<bar> * 2 powr of_int k" by (simp add: x abs_mult)
  have "of_int \<bar>m\<bar> < (2::real) ^ p" using m(2) by (metis of_int_less_iff of_int_numeral of_int_power)
  then have "\<bar>x\<bar> < 2 ^ p * 2 powr of_int k" unfolding ax by (intro mult_strict_right_mono) simp_all
  also have "\<dots> = 2 powr (of_int (int p + k))" by (simp add: powr_add powr_realpow)
  finally have "log 2 \<bar>x\<bar> < of_int (int p + k)"
    using x0 by (simp add: log_less_iff)
  then have "\<lfloor>log 2 \<bar>x\<bar>\<rfloor> < int p + k" by (simp add: floor_less_iff)
  then have j: "0 \<le> k - (E - int p + 1)" using k by (simp add: E_def)
  have "x / U = of_int m * 2 powr (of_int k - of_int (E - int p + 1))"
    by (simp add: x U_def powr_diff)
  also have "of_int k - of_int (E - int p + 1) = (real (nat (k - (E - int p + 1))))"
    using j by simp
  also have "(2::real) powr real (nat (k - (E - int p + 1))) = 2 ^ nat (k - (E - int p + 1))"
    by (simp add: powr_realpow)
  finally have "x / U = of_int (m * 2 ^ nat (k - (E - int p + 1)))" by simp
  then have "round_half_even (x / U) = m * 2 ^ nat (k - (E - int p + 1))"
    by (simp only: rhe_int)
  then have "of_int (round_half_even (x / U)) * U = (x / U) * U"
    using \<open>x / U = of_int (m * 2 ^ nat (k - (E - int p + 1)))\<close> by simp
  also have "\<dots> = x" by (simp add: U_def)
  finally show ?thesis using x0 by (simp add: ieee_round_unfold E_def U_def)
qed

lemma ieee_round_unit:
  assumes "0 \<le> x" "x \<le> 1" "emin \<le> - 1" "0 < p"
  shows "0 \<le> ieee_round p emin x \<and> ieee_round p emin x \<le> 1 \<and>
     \<bar>ieee_round p emin x - x\<bar> \<le> 1 / 2 ^ Suc p"
proof (cases "x = 0 \<or> x = 1")
  case True
  then show ?thesis
  proof
    assume "x = 0" then show ?thesis by (simp add: ieee_round_def)
  next
    assume x1: "x = 1"
    have "ieee_round p emin x = x"
      using assms(3,4) by (intro ieee_round_exact [where m = 1 and k = 0]) (simp_all add: x1)
    then show ?thesis using x1 by simp
  qed
next
  case False
  then have x: "0 < x" "x < 1" using assms by simp_all
  define E where "E = max \<lfloor>log 2 \<bar>x\<bar>\<rfloor> emin"
  define U where "U = (2::real) powr of_int (E - int p + 1)"
  have U: "0 < U" by (simp add: U_def)
  have "log 2 x < 0" using x by simp
  then have "\<lfloor>log 2 \<bar>x\<bar>\<rfloor> \<le> - 1" using x by (simp add: floor_le_iff)
  then have E: "E \<le> - 1" using assms(3) by (simp add: E_def)
  have "x < 2 powr (of_int (\<lfloor>log 2 x\<rfloor> + 1))"
    using x by (metis floor_log_eq_powr_iff one_less_numeral_iff semiring_norm(76))
  also have "\<dots> \<le> 2 powr of_int (E + 1)"
    using x by (intro powr_mono) (simp_all add: E_def)
  finally have xE: "x < 2 powr of_int (E + 1)" .
  have "x / U < 2 powr of_int (E + 1) / U" using xE U by (simp add: divide_strict_right_mono)
  also have "\<dots> = 2 powr (of_int (E + 1) - of_int (E - int p + 1))"
    unfolding U_def by (rule powr_diff [symmetric])
  also have "of_int (E + 1) - of_int (E - int p + 1) = real p" by simp
  also have "(2::real) powr real p = of_int (2 ^ p)" by (simp add: powr_realpow)
  finally have "round_half_even (x / U) \<le> 2 ^ p" by (intro rhe_le) simp
  then have "(of_int (round_half_even (x / U)) :: real) \<le> of_int (2 ^ p)" by (simp only: of_int_le_iff)
  then have "of_int (round_half_even (x / U)) * U \<le> of_int (2 ^ p) * U"
    using U by (intro mult_right_mono) simp_all
  also have "of_int (2 ^ p) * U = 2 powr real p * 2 powr of_int (E - int p + 1)"
    by (simp add: U_def powr_realpow)
  also have "\<dots> = 2 powr (real p + of_int (E - int p + 1))"
    by (rule powr_add [symmetric])
  also have "real p + of_int (E - int p + 1) = of_int (E + 1)" by simp
  also have "(2::real) powr of_int (E + 1) \<le> 2 powr 0" using E by (intro powr_mono) simp_all
  finally have up: "of_int (round_half_even (x / U)) * U \<le> 1" by simp
  have "0 \<le> round_half_even (x / U)" using x U by (intro rhe_ge) simp
  then have lo: "0 \<le> of_int (round_half_even (x / U)) * U" using U by simp
  have r: "ieee_round p emin x = of_int (round_half_even (x / U)) * U"
    using x by (simp add: ieee_round_unfold E_def U_def)
  have "U \<le> 2 powr (- real p)" unfolding U_def using E by (intro powr_mono) simp_all
  also have "\<dots> = 1 / 2 ^ p" by (simp add: powr_minus_divide powr_realpow)
  finally have "U / 2 \<le> 1 / 2 ^ Suc p" by simp
  moreover have "\<bar>ieee_round p emin x - x\<bar> \<le> U / 2"
    using ieee_round_err [of x p emin] x by (simp add: E_def U_def)
  ultimately show ?thesis using r lo up by simp
qed

lemma quotient_range:
  assumes "- 32768 \<le> v" "v \<le> 32767"
  shows "\<bar>if v < 0 then real_of_int v / 32768 else real_of_int v / 32767\<bar> \<le> 1"
  using assms by (auto simp: abs_if)

lemma to_float_negative:
  assumes "- 32768 \<le> v" "v < 0"
  shows "to_float v = real_of_int v / 32768"
proof -
  have x: "real_of_int v / 32768 = of_int v * 2 powr of_int (- 15)"
    by (simp add: powr_minus_divide)
  have m: "v \<noteq> 0" "\<bar>v\<bar> < 2 ^ 53" "\<bar>v\<bar> < 2 ^ 24" using assms by simp_all
  have "binary64 (real_of_int v / 32768) = real_of_int v / 32768"
    unfolding binary64_def by (rule ieee_round_exact [OF x m(1,2)]) simp
  moreover have "binary32 (real_of_int v / 32768) = real_of_int v / 32768"
    unfolding binary32_def by (rule ieee_round_exact [OF x m(1,3)]) simp
  ultimately show ?thesis unfolding to_float_def using assms(2) by (simp only: if_True)
qed

lemma to_float_zero: "to_float 0 = 0"
  by (simp add: to_float_def binary64_def binary32_def ieee_round_def)

lemma to_float_max: "to_float 32767 = 1"
proof -
  have x: "(1::real) = of_int 1 * 2 powr of_int 0" by simp
  have "binary64 1 = 1" unfolding binary64_def by (rule ieee_round_exact [OF x]) simp_all
  moreover have "binary32 1 = 1" unfolding binary32_def by (rule ieee_round_exact [OF x]) simp_all
  ultimately show ?thesis by (simp add: to_float_def)
qed

lemma to_float_nonnegative:
  assumes "0 \<le> v" "v \<le> 32767"
  shows "0 \<le> to_float v \<and> to_float v \<le> 1 \<and> \<bar>to_float v - real_of_int v / 32767\<bar> \<le> 1 / 2 ^ 24"
proof -
  define q where "q = real_of_int v / 32767"
  have q: "0 \<le> q" "q \<le> 1" using assms by (simp_all add: q_def)
  from ieee_round_unit [OF q, of "- 1022" 53]
  have y: "0 \<le> binary64 q" "binary64 q \<le> 1" "\<bar>binary64 q - q\<bar> \<le> 1 / 2 ^ 54"
    by (simp_all add: binary64_def)
  from ieee_round_unit [OF y(1,2), of "- 126" 24]
  have z: "0 \<le> binary32 (binary64 q)" "binary32 (binary64 q) \<le> 1"
    "\<bar>binary32 (binary64 q) - binary64 q\<bar> \<le> 1 / 2 ^ 25"
    by (simp_all add: binary32_def)
  have "\<bar>binary32 (binary64 q) - q\<bar> \<le> 1 / 2 ^ 25 + 1 / 2 ^ 54" using y(3) z(3) by linarith
  also have "\<dots> \<le> 1 / 2 ^ 24" by simp
  finally have "\<bar>binary32 (binary64 q) - q\<bar> \<le> 1 / 2 ^ 24" .
  moreover have "to_float v = binary32 (binary64 q)" using assms(1) by (simp add: to_float_def q_def)
  ultimately show ?thesis using z by (simp add: q_def)
qed

lemma to_float_range: "- 32768 \<le> v \<Longrightarrow> v \<le> 32767 \<Longrightarrow> - 1 \<le> to_float v \<and> to_float v \<le> 1"
  using to_float_negative [of v] to_float_nonnegative [of v]
  by (cases "v < 0") auto

lemma rhe_eval:
  assumes "of_int m - 1 / 2 < y" "y < of_int m + 1 / 2"
  shows "round_half_even y = m"
proof -
  have "\<lfloor>y\<rfloor> = m \<or> \<lfloor>y\<rfloor> = m - 1" using assms by linarith
  then show ?thesis using assms unfolding round_half_even_def Let_def by auto
qed

lemma ieee_round_eval:
  assumes "2 powr of_int e \<le> \<bar>x\<bar>" "\<bar>x\<bar> < 2 powr of_int (e + 1)" "emin \<le> e"
    and "U = 2 powr of_int (e - int p + 1)"
    and "of_int m - 1 / 2 < x / U" "x / U < of_int m + 1 / 2"
  shows "ieee_round p emin x = of_int m * U"
proof -
  have x: "x \<noteq> 0" using assms(1) by (smt (verit) powr_gt_zero)
  have "\<lfloor>log 2 \<bar>x\<bar>\<rfloor> = e" using assms(1,2) by (rule floor_log2)
  then have "max \<lfloor>log 2 \<bar>x\<bar>\<rfloor> emin = e" using assms(3) by simp
  then show ?thesis
    using rhe_eval [OF assms(5,6)] unfolding ieee_round_unfold [OF x] assms(4) by simp
qed

lemma binary64_one_over_32767: "binary64 (1 / 32767) = 4503737070518400 / 2 ^ 67"
proof -
  have "binary64 (1 / 32767) = of_int 4503737070518400 * (1 / 2 ^ 67)"
    unfolding binary64_def
    by (rule ieee_round_eval [where e = "- 15"]) (simp_all add: powr_minus_divide)
  then show ?thesis by simp
qed

lemma to_float_one: "to_float 1 = 32769 / 2 ^ 30"
proof -
  have "binary32 (4503737070518400 / 2 ^ 67) = of_int 8388864 * (1 / 2 ^ 38)"
    unfolding binary32_def
    by (rule ieee_round_eval [where e = "- 15"]) (simp_all add: powr_minus_divide)
  then show ?thesis by (simp add: to_float_def binary64_one_over_32767)
qed

lemma fillSamples_in_range:
  "\<forall>i \<in> set is. i * 2 + 2 \<le> length bytes \<Longrightarrow>
   fillSamples bytes is =
     Inr (map (\<lambda>i. to_float (le_int16 (bytes ! (i * 2)) (bytes ! (i * 2 + 1)))) is)"
  by (induction "is") (simp_all add: getInt16_def sint_cat16)

lemma decodePCM_samples:
  assumes "atob base64PCM = Some bytes"
  shows "decodePCM base64PCM =
     Inr (map (\<lambda>i. to_float (le_int16 (bytes ! (i * 2)) (bytes ! (i * 2 + 1))))
            [0 ..< length bytes div 2])"
proof -
  have "\<forall>i \<in> set [0 ..< length bytes div 2]. i * 2 + 2 \<le> length bytes"
    by auto
  then show ?thesis
    using assms by (simp add: decodePCM_def fillSamples_in_range)
qed

lemma decodePCM_nth:
  assumes "atob base64PCM = Some bytes"
  shows "\<exists>samples. decodePCM base64PCM = Inr samples \<and> length samples = length bytes div 2 \<and>
     (\<forall>k<length bytes div 2.
        (let v = le_int16 (bytes ! (2 * k)) (bytes ! (2 * k + 1)) in
         (v < 0 \<longrightarrow> samples ! k = real_of_int v / 32768) \<and>
         (0 \<le> v \<longrightarrow> samples ! k = binary32 (binary64 (real_of_int v / 32767)) \<and>
            \<bar>samples ! k - real_of_int v / 32767\<bar> \<le> 1 / 2 ^ 24) \<and>
         (v = 0 \<longrightarrow> samples ! k = 0) \<and> (v = 32767 \<longrightarrow> samples ! k = 1) \<and>
         - 1 \<le> samples ! k \<and> samples ! k \<le> 1))"
proof -
  let ?n = "length bytes div 2"
  let ?f = "\<lambda>i. to_float (le_int16 (bytes ! (i * 2)) (bytes ! (i * 2 + 1)))"
  have d: "decodePCM base64PCM = Inr (map ?f [0 ..< ?n])"
    using decodePCM_samples [OF assms] by simp
  have p: "(v < 0 \<longrightarrow> to_float v = real_of_int v / 32768) \<and>
         (0 \<le> v \<longrightarrow> to_float v = binary32 (binary64 (real_of_int v / 32767)) \<and>
            \<bar>to_float v - real_of_int v / 32767\<bar> \<le> 1 / 2 ^ 24) \<and>
         (v = 0 \<longrightarrow> to_float v = 0) \<and> (v = 32767 \<longrightarrow> to_float v = 1) \<and>
         - 1 \<le> to_float v \<and> to_float v \<le> 1"
    if "- 32768 \<le> v" "v \<le> 32767" for v
  proof (intro conjI impI)
    show "to_float v = real_of_int v / 32768" if "v < 0"
      using to_float_negative [OF \<open>- 32768 \<le> v\<close> that] .
    show "to_float v = binary32 (binary64 (real_of_int v / 32767))" if "0 \<le> v"
      using that by (simp add: to_float_def)
    show "\<bar>to_float v - real_of_int v / 32767\<bar> \<le> 1 / 2 ^ 24" if "0 \<le> v"
      using to_float_nonnegative [OF that \<open>v \<le> 32767\<close>] by blast
    show "to_float v = 0" if "v = 0" using that by (simp add: to_float_zero)
    show "to_float v = 1" if "v = 32767" using that by (simp add: to_float_max)
    show "- 1 \<le> to_float v" "to_float v \<le> 1"
      using to_float_range [OF that] by blast+
  qed
  show ?thesis
  proof (intro exI [of _ "map ?f [0 ..< ?n]"] conjI allI impI)
    show "decodePCM base64PCM = Inr (map ?f [0 ..< ?n])" by (rule d)
    show "length (map ?f [0 ..< ?n]) = ?n" by simp
  next
    fix k assume "k < ?n"
    then have nth: "map ?f [0 ..< ?n] ! k = to_float (le_int16 (bytes ! (2 * k)) (bytes ! (2 * k + 1)))"
      by (simp add: mult.commute)
    show "let v = le_int16 (bytes ! (2 * k)) (bytes ! (2 * k + 1)) in
         (v < 0 \<longrightarrow> map ?f [0 ..< ?n] ! k = real_of_int v / 32768) \<and>
         (0 \<le> v \<longrightarrow> map ?f [0 ..< ?n] ! k = binary32 (binary64 (real_of_int v / 32767)) \<and>
            \<bar>map ?f [0 ..< ?n] ! k - real_of_int v / 32767\<bar> \<le> 1 / 2 ^ 24) \<and>
         (v = 0 \<longrightarrow> map ?f [0 ..< ?n] ! k = 0) \<and> (v = 32767 \<longrightarrow> map ?f [0 ..< ?n] ! k = 1) \<and>
         - 1 \<le> map ?f [0 ..< ?n] ! k \<and> map ?f [0 ..< ?n] ! k \<le> 1"
      unfolding nth Let_def
      using p [of "le_int16 (bytes ! (2 * k)) (bytes ! (2 * k + 1))"]
        le_int16_range [of "bytes ! (2 * k)" "bytes ! (2 * k + 1)"] by blast
  qed
qed

lemma atob_AAAA: "atob ''AAAA'' = Some [0, 0, 0]"
  by (simp add: atob_def strip_padding_def is_ascii_whitespace_def b64_value_def)

lemma atob_AQA: "atob ''AQA='' = Some [1, 0]"
  by (simp add: atob_def strip_padding_def is_ascii_whitespace_def b64_value_def)

lemma atob_AQD_fwCA: "atob ''AQD/fwCA'' = Some [1, 0, 255, 127, 0, 128]"
  by (simp add: atob_def strip_padding_def is_ascii_whitespace_def b64_value_def)

lemma le_int16_examples:
  "le_int16 1 0 = 1" "le_int16 255 127 = 32767" "le_int16 0 128 = - 32768"
  by (simp_all add: le_int16_def)

lemma decodePCM_AQA: "decodePCM ''AQA='' = Inr [32769 / 2 ^ 30]"
  using decodePCM_samples [OF atob_AQA] by (simp add: le_int16_examples to_float_one)

section \<open>Claims on decoding\<close>

text \<open>
  C5, as the specification states it, does not hold: the decode step has no check of the
  byte length and no error of its own. The payload \<^verbatim>\<open>AAAA\<close> decodes to three bytes,
  an odd number, and the decode step returns one sample.
\<close>

theorem C5_odd_length_not_rejected:
  "atob ''AAAA'' = Some [0, 0, 0] \<and> odd (length [0, 0, 0 :: byte]) \<and>
   decodePCM ''AAAA'' = Inr [0]"
  by (simp add: atob_AAAA decodePCM_def getInt16_def to_float_zero)

text \<open>
  C5, amended: for every base64 payload whose decoded byte length is odd, \<open>2 n + 1\<close>, the
  decode step does not fail: it returns \<open>n\<close> samples, read from the first \<open>2 n\<close> bytes, and
  the last byte is ignored.
\<close>

theorem C5_odd_length_truncates:
  assumes "atob base64PCM = Some bytes" and "length bytes = 2 * n + 1"
  shows "\<exists>samples. decodePCM base64PCM = Inr samples \<and> length samples = n \<and>
     (\<forall>k<n. samples ! k = to_float (le_int16 (bytes ! (2 * k)) (bytes ! (2 * k + 1))))"
proof -
  have n: "length bytes div 2 = n" using assms(2) by simp
  show ?thesis
    using decodePCM_samples [OF assms(1)] unfolding n
    by (simp add: mult.commute)
qed

theorem C5_odd_length_truncates_witness:
  "atob ''AAAA'' = Some [0, 0, 0] \<and> length [0, 0, 0 :: byte] = 2 * 1 + 1 \<and>
   (\<exists>samples. decodePCM ''AAAA'' = Inr samples \<and> length samples = 1 \<and>
     (\<forall>k<1. samples ! k = to_float (le_int16 ([0, 0, 0] ! (2 * k)) ([0, 0, 0] ! (2 * k + 1)))))"
  using C5_odd_length_truncates [OF atob_AAAA, of 1] atob_AAAA by simp

text \<open>
  C6, as the specification states it, does not hold: a sample is a single-precision
  float, and the quotient of a positive value by 32767 is not one. The payload
  \<^verbatim>\<open>AQA=\<close> decodes to the two bytes \<open>1, 0\<close>, the value \<open>1\<close>, and the sample stored is
  \<open>32769 / 2\<^sup>3\<^sup>0\<close>, which is not \<open>1 / 32767\<close>.
\<close>

theorem C6_sample_is_not_exact_quotient:
  "atob ''AQA='' = Some [1, 0] \<and> length [1, 0 :: byte] = 2 * 1 \<and> le_int16 1 0 = 1 \<and>
   decodePCM ''AQA='' = Inr [32769 / 2 ^ 30] \<and> (32769 / 2 ^ 30 :: real) \<noteq> 1 / 32767"
  by (simp add: atob_AQA decodePCM_AQA le_int16_examples)

text \<open>
  C6, amended: for every base64 payload that decodes to \<open>2 n\<close> bytes the decoder returns
  exactly \<open>n\<close> samples. When the \<open>k\<close>-th little-endian signed 16-bit value is negative,
  sample \<open>k\<close> is that value divided by 32768, exactly. When it is not negative, sample \<open>k\<close>
  is its quotient by 32767 rounded to double and then to single precision: within
  \<open>2\<^sup>-\<^sup>2\<^sup>4\<close> of the quotient, and equal to it for the values \<open>0\<close> and \<open>32767\<close>. Every sample
  lies between \<open>-1\<close> and \<open>1\<close>.
\<close>

theorem C6_decode_even_length_rounded:
  assumes "atob base64PCM = Some bytes" and "length bytes = 2 * n"
  shows "\<exists>samples. decodePCM base64PCM = Inr samples \<and> length samples = n \<and>
     (\<forall>k<n.
        (let v = le_int16 (bytes ! (2 * k)) (bytes ! (2 * k + 1)) in
         (v < 0 \<longrightarrow> samples ! k = real_of_int v / 32768) \<and>
         (0 \<le> v \<longrightarrow> samples ! k = binary32 (binary64 (real_of_int v / 32767)) \<and>
            \<bar>samples ! k - real_of_int v / 32767\<bar> \<le> 1 / 2 ^ 24) \<and>
         (v = 0 \<longrightarrow> samples ! k = 0) \<and> (v = 32767 \<longrightarrow> samples ! k = 1) \<and>
         - 1 \<le> samples ! k \<and> samples ! k \<le> 1))"
proof -
  have n: "length bytes div 2 = n" using assms(2) by simp
  show ?thesis
    using decodePCM_nth [OF assms(1)] unfolding n .
qed

theorem C6_decode_even_length_rounded_witness:
  "atob ''AQD/fwCA'' = Some [1, 0, 255, 127, 0, 128] \<and>
   length [1, 0, 255, 127, 0, 128 :: byte] = 2 * 3 \<and>
   decodePCM ''AQD/fwCA'' = Inr [32769 / 2 ^ 30, 1, - 1] \<and>
   \<bar>32769 / 2 ^ 30 - 1 / 32767 :: real\<bar> \<le> 1 / 2 ^ 24"
proof -
  from C6_decode_even_length_rounded [OF atob_AQD_fwCA, of 3]
  obtain samples where d: "decodePCM ''AQD/fwCA'' = Inr samples" and l: "length samples = 3"
    and s: "\<forall>k<3.
        (let v = le_int16 ([1, 0, 255, 127, 0, 128] ! (2 * k)) ([1, 0, 255, 127, 0, 128] ! (2 * k + 1)) in
         (v < 0 \<longrightarrow> samples ! k = real_of_int v / 32768) \<and>
         (0 \<le> v \<longrightarrow> samples ! k = binary32 (binary64 (real_of_int v / 32767)) \<and>
            \<bar>samples ! k - real_of_int v / 32767\<bar> \<le> 1 / 2 ^ 24) \<and>
         (v = 0 \<longrightarrow> samples ! k = 0) \<and> (v = 32767 \<longrightarrow> samples ! k = 1) \<and>
         - 1 \<le> samples ! k \<and> samples ! k \<le> 1)"
    by auto
  have one: "binary32 (binary64 (1 / 32767)) = 32769 / 2 ^ 30"
    using to_float_one by (simp add: to_float_def)
  from s [rule_format, of 0] have s0: "samples ! 0 = 32769 / 2 ^ 30"
    and b: "\<bar>samples ! 0 - 1 / 32767\<bar> \<le> 1 / 2 ^ 24"
    by (simp_all add: le_int16_examples one)
  from s [rule_format, of 1] have s1: "samples ! 1 = 1" by (simp add: le_int16_examples)
  from s [rule_format, of 2] have s2: "samples ! 2 = - 1" by (simp add: le_int16_examples)
  have "samples = [samples ! 0, samples ! 1, samples ! 2]"
    using l by (intro nth_equalityI) (auto simp: less_Suc_eq numeral_3_eq_3 numeral_2_eq_2)
  then have "samples = [32769 / 2 ^ 30, 1, - 1]" using s0 s1 s2 by simp
  then show ?thesis using d b s0 atob_AQD_fwCA by simp
qed

section \<open>Claims on the synthesis client\<close>




section \<open>Cleaning and chunking: lemmas\<close>

lemma trim_Nil_iff: "trim s = [] \<longleftrightarrow> (\<forall>c\<in>set s. is_space c)"
proof
  assume "trim s = []"
  then have all: "\<forall>c\<in>set (dropWhile is_space s). is_space c"
    unfolding trim_def by (simp add: dropWhile_eq_Nil_conv)
  have "dropWhile is_space s = []"
  proof (rule ccontr)
    assume ne: "dropWhile is_space s \<noteq> []"
    then have "\<not> is_space (hd (dropWhile is_space s))" by (rule hd_dropWhile)
    moreover have "hd (dropWhile is_space s) \<in> set (dropWhile is_space s)"
      using ne by simp
    ultimately show False using all by blast
  qed
  then show "\<forall>c\<in>set s. is_space c" by (simp add: dropWhile_eq_Nil_conv)
next
  assume "\<forall>c\<in>set s. is_space c"
  then have "dropWhile is_space s = []" by (simp add: dropWhile_eq_Nil_conv)
  then show "trim s = []" unfolding trim_def by (simp del: dropWhile_eq_Nil_conv)
qed

lemma last_trim: "trim s \<noteq> [] \<Longrightarrow> \<not> is_space (last (trim s))"
proof -
  assume a: "trim s \<noteq> []"
  let ?r = "dropWhile is_space (rev (dropWhile is_space s))"
  have r: "?r \<noteq> []" using a by (simp add: trim_def)
  then have "\<not> is_space (hd ?r)" by (rule hd_dropWhile)
  moreover have "last (trim s) = hd ?r" using r by (simp add: trim_def last_rev)
  ultimately show ?thesis by simp
qed

lemma m_sentence_None: "m_sentence (c # cs) = None \<Longrightarrow> is_terminator c"
proof (rule ccontr)
  assume n: "m_sentence (c # cs) = None" and c: "\<not> is_terminator c"
  let ?r1 = "dropWhile (\<lambda>c. \<not> is_terminator c) (c # cs)"
  have "?r1 = [] \<or> is_terminator (hd ?r1)"
    using hd_dropWhile [of "\<lambda>c. \<not> is_terminator c" "c # cs"] by blast
  then have "?r1 = [] \<or> takeWhile is_terminator ?r1 \<noteq> []"
    by (cases ?r1) auto
  then show False using n c
    by (auto simp: m_sentence_def Let_def split: if_splits)
qed

lemma take_three: "take (length a + length b + k) (a @ b @ c) = a @ b @ take k c"
  by simp

lemma m_sentence_Some:
  assumes "m_sentence s = Some n"
  shows "s \<noteq> [] \<and> 1 \<le> n \<and> n \<le> length s \<and>
     ((\<exists>c\<in>set (take n s). is_terminator c) \<or> n = length s)"
proof -
  define body where "body = takeWhile (\<lambda>c. \<not> is_terminator c) s"
  define r1 where "r1 = dropWhile (\<lambda>c. \<not> is_terminator c) s"
  define punct where "punct = takeWhile is_terminator r1"
  define r2 where "r2 = dropWhile is_terminator r1"
  define closers where "closers = takeWhile is_closer r2"
  have m: "(if body = [] then None
         else if punct \<noteq> [] then Some (length body + length punct + length closers)
         else if r1 = [] then Some (length body)
         else None) = Some n"
    using assms unfolding m_sentence_def Let_def body_def r1_def punct_def r2_def closers_def .
  have s1: "s = body @ r1" unfolding body_def r1_def by simp
  have r1: "r1 = punct @ r2" unfolding punct_def r2_def by simp
  have s_eq: "s = body @ punct @ r2" using s1 r1 by simp
  have body: "body \<noteq> []" using m by (auto split: if_splits)
  have cl: "length closers \<le> length r2" unfolding closers_def by (rule length_takeWhile_le)
  show ?thesis
  proof (cases "punct = []")
    case True
    then have "r1 = []" and "n = length body"
      using m body by (auto split: if_splits)
    then have "n = length s" using s1 by simp
    moreover have "1 \<le> length s" using body s1 by (cases body) auto
    ultimately show ?thesis by auto
  next
    case False
    then have n: "n = length body + length punct + length closers"
      using m body by (auto split: if_splits)
    obtain c where c: "c \<in> set punct" using False by (cases punct) auto
    then have "is_terminator c" unfolding punct_def by (auto dest: set_takeWhileD)
    moreover have "take n s = body @ punct @ take (length closers) r2"
      unfolding n by (subst s_eq) (rule take_three)
    ultimately have ex: "\<exists>c\<in>set (take n s). is_terminator c" using c by auto
    have "n \<le> length s" using n cl by (subst s_eq) simp
    moreover have "1 \<le> n" using n body by (cases body) auto
    moreover have "s \<noteq> []" using s1 body by auto
    ultimately show ?thesis using ex by blast
  qed
qed

lemma match_all_subseq: "subseq (concat (match_all m s)) s"
proof (induction m s rule: match_all.induct)
  case (1 m)
  then show ?case by simp
next
  case (2 m c cs)
  show ?case
  proof (cases "m (c # cs)")
    case None
    with 2 show ?thesis by (simp add: list_emb_Cons)
  next
    case (Some n)
    then have ih: "subseq (concat (match_all m (drop (n - 1) cs))) (drop (n - 1) cs)"
      using 2 by simp
    show ?thesis
    proof (cases n)
      case 0
      then show ?thesis using Some ih by (simp add: list_emb_Cons)
    next
      case (Suc k)
      have "subseq ((c # take k cs) @ concat (match_all m (drop k cs))) ((c # take k cs) @ drop k cs)"
        using ih Suc by (intro list_emb_append_mono) simp_all
      then show ?thesis using Some Suc by simp
    qed
  qed
qed

lemma is_terminator_not_space: "is_terminator c \<Longrightarrow> \<not> is_space c"
  by (auto simp: is_terminator_def is_space_def)

lemma match_all_sentence_filter:
  "filter (\<lambda>c. \<not> is_terminator c) (concat (match_all m_sentence s)) =
   filter (\<lambda>c. \<not> is_terminator c) s"
proof (induction m_sentence s rule: match_all.induct)
  case 1
  then show ?case by simp
next
  case (2 c cs)
  show ?case
  proof (cases "m_sentence (c # cs)")
    case None
    then have "is_terminator c" by (rule m_sentence_None)
    with 2 None show ?thesis by simp
  next
    case (Some n)
    then obtain k where k: "n = Suc k" using m_sentence_Some [OF Some] by (cases n) auto
    have "filter (\<lambda>c. \<not> is_terminator c) (concat (match_all m_sentence (c # cs))) =
        filter (\<lambda>c. \<not> is_terminator c) ((c # take k cs) @ drop k cs)"
      using 2 Some k by (simp del: append_take_drop_id)
    then show ?thesis by simp
  qed
qed

lemma match_all_sentence_nonempty:
  "\<forall>x\<in>set (match_all m_sentence s). x \<noteq> []"
proof (induction m_sentence s rule: match_all.induct)
  case 1
  then show ?case by simp
next
  case (2 c cs)
  show ?case
  proof (cases "m_sentence (c # cs)")
    case None
    with 2 show ?thesis by simp
  next
    case (Some n)
    then obtain k where k: "n = Suc k" using m_sentence_Some [OF Some] by (cases n) auto
    show ?thesis using 2 Some k by simp
  qed
qed

lemma match_all_sentence_nonspace:
  "s = [] \<or> \<not> is_space (last s) \<Longrightarrow>
   \<forall>x\<in>set (match_all m_sentence s). \<exists>c\<in>set x. \<not> is_space c"
proof (induction m_sentence s rule: match_all.induct)
  case 1
  then show ?case by simp
next
  case (2 c cs)
  from "2.prems" have lst: "\<not> is_space (last (c # cs))" by simp
  show ?case
  proof (cases "m_sentence (c # cs)")
    case None
    then have "is_terminator c" by (rule m_sentence_None)
    then have "cs = [] \<or> \<not> is_space (last cs)" using lst by (cases cs) auto
    with 2 None show ?thesis by simp
  next
    case (Some n)
    have rest: "drop (n - 1) cs = [] \<or> \<not> is_space (last (drop (n - 1) cs))"
    proof (cases "drop (n - 1) cs = []")
      case True
      then show ?thesis by simp
    next
      case False
      then have "n - 1 < length cs" by simp
      then have "last (drop (n - 1) cs) = last cs" by (rule last_drop)
      moreover have "cs \<noteq> []" using False by auto
      ultimately show ?thesis using lst by simp
    qed
    have hd: "\<exists>x\<in>set (take n (c # cs)). \<not> is_space x"
    proof -
      from m_sentence_Some [OF Some]
      consider "\<exists>x\<in>set (take n (c # cs)). is_terminator x" | "n = length (c # cs)" by blast
      then show ?thesis
      proof cases
        case 1
        then show ?thesis using is_terminator_not_space by blast
      next
        case 2
        then have "take n (c # cs) = c # cs" by simp
        moreover have "last (c # cs) \<in> set (c # cs)" by (rule last_in_set) simp
        ultimately show ?thesis using lst by metis
      qed
    qed
    show ?thesis using "2.hyps"(2) [OF Some rest] Some hd by simp
  qed
qed

lemma match_all_sentence_last:
  "s \<noteq> [] \<Longrightarrow> \<not> is_terminator (last s) \<Longrightarrow>
   match_all m_sentence s \<noteq> [] \<and> suffix (last (match_all m_sentence s)) s"
proof (induction m_sentence s rule: match_all.induct)
  case 1
  then show ?case by simp
next
  case (2 c cs)
  from "2.prems" have lst: "\<not> is_terminator (last (c # cs))" by simp
  show ?case
  proof (cases "m_sentence (c # cs)")
    case None
    then have c: "is_terminator c" by (rule m_sentence_None)
    then have cs: "cs \<noteq> []" using lst by (cases cs) auto
    then have "\<not> is_terminator (last cs)" using lst by simp
    from "2.hyps"(1) [OF None cs this] None show ?thesis
      by (simp add: suffix_Cons)
  next
    case (Some n)
    then obtain k where k: "n = Suc k" using m_sentence_Some [OF Some] by (cases n) auto
    show ?thesis
    proof (cases "drop k cs = []")
      case True
      then have "take n (c # cs) = c # cs" using k by simp
      then show ?thesis using Some True k by simp
    next
      case False
      then have "k < length cs" by simp
      then have "last (drop k cs) = last cs" by (rule last_drop)
      moreover have "cs \<noteq> []" using False by auto
      ultimately have "\<not> is_terminator (last (drop k cs))" using lst by simp
      from "2.hyps"(2) [OF Some] False this k
      have ih: "match_all m_sentence (drop k cs) \<noteq> []"
        "suffix (last (match_all m_sentence (drop k cs))) (drop k cs)" by simp_all
      have "suffix (drop k cs) (c # cs)"
        by (metis suffix_drop suffix_ConsI)
      then have "suffix (last (match_all m_sentence (drop k cs))) (c # cs)"
        using ih(2) suffix_order.trans by blast
      then show ?thesis using Some k ih(1) by simp
    qed
  qed
qed

lemma joinSentences_append: "joinSentences (g @ h) = joinSentences g @ joinSentences h"
  by (simp add: joinSentences_def)

lemma joinSentences_Nil: "joinSentences [] = []"
  by (simp add: joinSentences_def)

lemma joinSentences_single: "joinSentences [s] = s @ '' ''"
  by (simp add: joinSentences_def)

lemma trim_joinSentences:
  assumes "g \<noteq> []" and "\<forall>s\<in>set g. \<exists>c\<in>set s. \<not> is_space c"
  shows "trim (joinSentences g) \<noteq> []"
proof -
  obtain s where s: "s \<in> set g" using assms(1) by (cases g) auto
  then obtain c where c: "c \<in> set s" "\<not> is_space c" using assms(2) by blast
  then have "c \<in> set (joinSentences g)" using s by (auto simp: joinSentences_def)
  then show ?thesis using c(2) by (auto simp: trim_Nil_iff)
qed

lemma foldl_addSentence:
  assumes "\<forall>s\<in>set (g0 @ ss). \<exists>c\<in>set s. \<not> is_space c"
  shows "\<exists>gs g. foldl addSentence (cks, joinSentences g0) ss =
            (cks @ map joinSentences gs, joinSentences g) \<and>
          [] \<notin> set gs \<and> concat gs @ g = g0 @ ss \<and> (g = [] \<longrightarrow> g0 = [] \<and> ss = [])"
  using assms
proof (induction ss arbitrary: cks g0)
  case Nil
  show ?case by (rule exI [of _ "[]"], rule exI [of _ g0]) simp
next
  case (Cons s ss)
  show ?case
  proof (cases "length (joinSentences g0 @ s) < 500")
    case True
    then have step: "addSentence (cks, joinSentences g0) s = (cks, joinSentences (g0 @ [s]))"
      by (simp add: addSentence_def joinSentences_append joinSentences_single)
    have "\<forall>x\<in>set ((g0 @ [s]) @ ss). \<exists>c\<in>set x. \<not> is_space c" using Cons.prems by simp
    from Cons.IH [OF this, of cks] obtain gs g where
      "foldl addSentence (cks, joinSentences (g0 @ [s])) ss =
            (cks @ map joinSentences gs, joinSentences g)"
      "[] \<notin> set gs" "concat gs @ g = (g0 @ [s]) @ ss" "g = [] \<longrightarrow> g0 @ [s] = [] \<and> ss = []"
      by blast
    then show ?thesis using step by (intro exI [of _ gs] exI [of _ g]) simp
  next
    case False
    have ns: "\<forall>x\<in>set ([s] @ ss). \<exists>c\<in>set x. \<not> is_space c" using Cons.prems by simp
    show ?thesis
    proof (cases "g0 = []")
      case True
      then have step: "addSentence (cks, joinSentences g0) s = (cks, joinSentences [s])"
        using False by (simp add: addSentence_def joinSentences_Nil joinSentences_single trim_def)
      from Cons.IH [OF ns, of cks] obtain gs g where
        "foldl addSentence (cks, joinSentences [s]) ss =
              (cks @ map joinSentences gs, joinSentences g)"
        "[] \<notin> set gs" "concat gs @ g = [s] @ ss" "g = [] \<longrightarrow> [s] = [] \<and> ss = []"
        by blast
      then show ?thesis using step True by (intro exI [of _ gs] exI [of _ g]) simp
    next
      case g0: False
      have "\<forall>s\<in>set g0. \<exists>c\<in>set s. \<not> is_space c" using Cons.prems by simp
      then have "trim (joinSentences g0) \<noteq> []" using g0 by (intro trim_joinSentences)
      then have step: "addSentence (cks, joinSentences g0) s =
          (cks @ [joinSentences g0], joinSentences [s])"
        using False by (simp add: addSentence_def joinSentences_single)
      from Cons.IH [OF ns, of "cks @ [joinSentences g0]"] obtain gs g where
        "foldl addSentence (cks @ [joinSentences g0], joinSentences [s]) ss =
              ((cks @ [joinSentences g0]) @ map joinSentences gs, joinSentences g)"
        "[] \<notin> set gs" "concat gs @ g = [s] @ ss" "g = [] \<longrightarrow> [s] = [] \<and> ss = []"
        by blast
      then show ?thesis using step g0 by (intro exI [of _ "g0 # gs"] exI [of _ g]) simp
    qed
  qed
qed

lemma chunkSentences_groups:
  assumes "\<forall>s\<in>set ss. \<exists>c\<in>set s. \<not> is_space c"
  shows "\<exists>groups. [] \<notin> set groups \<and> concat groups = ss \<and>
           chunkSentences ss = map joinSentences groups"
proof -
  from foldl_addSentence [of "[]" ss "[]"] assms obtain gs g where
    f: "foldl addSentence ([], []) ss = (map joinSentences gs, joinSentences g)"
    and gs: "[] \<notin> set gs" and c: "concat gs @ g = ss" and g: "g = [] \<longrightarrow> ss = []"
    by (auto simp: joinSentences_Nil)
  show ?thesis
  proof (cases "g = []")
    case True
    then have "chunkSentences ss = map joinSentences gs"
      using f by (simp add: chunkSentences_def flushChunk_def joinSentences_Nil trim_def)
    then show ?thesis using gs c True by (intro exI [of _ gs]) simp
  next
    case False
    have "\<forall>s\<in>set g. \<exists>c\<in>set s. \<not> is_space c" using assms c by auto
    then have "trim (joinSentences g) \<noteq> []" using False by (intro trim_joinSentences)
    then have "chunkSentences ss = map joinSentences (gs @ [g])"
      using f by (simp add: chunkSentences_def flushChunk_def)
    then show ?thesis using gs c False by (intro exI [of _ "gs @ [g]"]) simp
  qed
qed

lemma chunkSentences_empty: "chunkSentences [[]] = []"
  by (simp add: chunkSentences_def flushChunk_def addSentence_def trim_def is_space_def)

lemma sentences_Nil: "sentences [] = [[]]"
  by (simp add: sentences_def)

lemma sentences_nonspace:
  assumes "clean \<noteq> []" and "\<not> is_space (last clean)"
  shows "\<forall>s\<in>set (sentences clean). \<exists>c\<in>set s. \<not> is_space c"
proof (cases "match_all m_sentence clean")
  case Nil
  have "last clean \<in> set clean" using assms(1) by (rule last_in_set)
  then show ?thesis using Nil assms(2) by (auto simp: sentences_def)
next
  case (Cons a list)
  then have "sentences clean = match_all m_sentence clean" by (simp add: sentences_def)
  then show ?thesis using match_all_sentence_nonspace [of clean] assms(2) by simp
qed

lemma sentences_subseq: "subseq (concat (sentences clean)) clean"
proof (cases "match_all m_sentence clean")
  case Nil
  then show ?thesis by (simp add: sentences_def)
next
  case (Cons a list)
  then have "sentences clean = match_all m_sentence clean" by (simp add: sentences_def)
  then show ?thesis using match_all_subseq [of m_sentence clean] by simp
qed

lemma sentences_filter:
  "filter (\<lambda>c. \<not> is_terminator c) (concat (sentences clean)) =
   filter (\<lambda>c. \<not> is_terminator c) clean"
proof (cases "match_all m_sentence clean")
  case Nil
  then show ?thesis by (simp add: sentences_def)
next
  case (Cons a list)
  then have "sentences clean = match_all m_sentence clean" by (simp add: sentences_def)
  then show ?thesis using match_all_sentence_filter [of clean] by simp
qed

lemma sentences_nonempty:
  assumes "clean \<noteq> []"
  shows "\<forall>s\<in>set (sentences clean). s \<noteq> []"
proof (cases "match_all m_sentence clean")
  case Nil
  then show ?thesis using assms by (simp add: sentences_def)
next
  case (Cons a list)
  then have "sentences clean = match_all m_sentence clean" by (simp add: sentences_def)
  then show ?thesis using match_all_sentence_nonempty [of clean] by simp
qed

lemma sentences_last:
  assumes "clean \<noteq> []" and "\<not> is_terminator (last clean)"
  shows "suffix (last (sentences clean)) clean"
proof -
  from match_all_sentence_last [OF assms]
  have ne: "match_all m_sentence clean \<noteq> []"
    and suf: "suffix (last (match_all m_sentence clean)) clean" by simp_all
  from ne have "sentences clean = match_all m_sentence clean"
    by (cases "match_all m_sentence clean") (simp_all add: sentences_def)
  then show ?thesis using suf by simp
qed

lemma replace_all_id:
  "\<forall>c\<in>set s. \<forall>cs. m (c # cs) = None \<Longrightarrow> replace_all m s = s"
  by (induction s) simp_all

lemma cleanText_spaces:
  assumes "\<forall>c\<in>set rawText. is_space c"
  shows "cleanText rawText = []"
proof -
  have e: "\<forall>c\<in>set rawText. \<forall>cs. m_export (c # cs) = None"
    using assms by (auto simp: m_export_def is_space_def)
  have b: "\<forall>c\<in>set rawText. \<forall>cs. m_literal ''**'' (c # cs) = None"
    using assms by (auto simp: m_literal_def is_space_def)
  have h: "\<forall>c\<in>set rawText. \<forall>cs. m_literal ''##'' (c # cs) = None"
    using assms by (auto simp: m_literal_def is_space_def)
  have r: "\<forall>c\<in>set rawText. \<forall>cs. m_reference (c # cs) = None"
    using assms by (auto simp: m_reference_def is_space_def)
  have q: "\<forall>c\<in>set rawText. \<forall>cs. m_literal [CHR 0x60] (c # cs) = None"
    using assms by (auto simp: m_literal_def is_space_def)
  have "cleanText rawText = trim rawText"
    unfolding cleanText_def
    by (simp only: replace_all_id [OF e] replace_all_id [OF b] replace_all_id [OF h]
        replace_all_id [OF r] replace_all_id [OF q])
  then show ?thesis using assms by (simp add: trim_Nil_iff)
qed

lemma processedChunks_spaces:
  assumes "\<forall>c\<in>set rawText. is_space c"
  shows "processedChunks rawText = []"
  by (simp add: processedChunks_def cleanText_spaces [OF assms] sentences_Nil chunkSentences_empty)

lemma last_cleanText: "cleanText rawText \<noteq> [] \<Longrightarrow> \<not> is_space (last (cleanText rawText))"
  unfolding cleanText_def by (rule last_trim)

lemma last_joinSentences:
  assumes "g \<noteq> []"
  shows "suffix (last g @ '' '') (joinSentences g)"
proof -
  have "g = butlast g @ [last g]" using assms by simp
  then have "joinSentences g = joinSentences (butlast g) @ last g @ '' ''"
    by (metis joinSentences_append joinSentences_single)
  then show ?thesis by (simp add: suffix_def)
qed

lemma cleanText_example: "cleanText ''...ok.'' = ''...ok.''"
  by (simp add: cleanText_def m_export_def m_literal_def m_reference_def trim_def is_space_def)

lemma sentences_example: "sentences ''...ok.'' = [''ok.'']"
  by (simp add: sentences_def m_sentence_def is_terminator_def is_closer_def)

lemma processedChunks_example: "processedChunks ''...ok.'' = [''ok. '']"
  by (simp add: processedChunks_def cleanText_example sentences_example chunkSentences_def addSentence_def flushChunk_def trim_def is_space_def)

section \<open>Claims on chunking\<close>

text \<open>
  C7, as the specification states it, does not hold: the chunks do not always give the
  cleaned text back, even up to white space. The sentence expression cannot start a match
  on a terminator, so a \<^verbatim>\<open>.\<close>, \<^verbatim>\<open>?\<close> or \<^verbatim>\<open>!\<close> at the start of the text (or
  right behind the closing brackets and quotes of a sentence) belongs to no sentence and
  to no chunk. The text \<^verbatim>\<open>...ok.\<close> is its own cleaned text and gives the one chunk
  \<^verbatim>\<open>ok. \<close>.
\<close>

theorem C7_leading_terminators_lost:
  "cleanText ''...ok.'' = ''...ok.'' \<and> processedChunks ''...ok.'' = [''ok. ''] \<and>
   filter (\<lambda>c. \<not> is_space c) (concat (processedChunks ''...ok.'')) \<noteq>
     filter (\<lambda>c. \<not> is_space c) (cleanText ''...ok.'')"
  by (simp add: cleanText_example processedChunks_example is_space_def)

text \<open>
  C7, amended. For every input text: the chunks are whole groups of consecutive sentences
  of the cleaned text, each sentence followed by the injected space, in order and with
  no sentence left out or cut (an over-long sentence is a chunk of its own, never cut);
  the sentences, concatenated, are the cleaned text with some terminators
  \<^verbatim>\<open>.\<close>, \<^verbatim>\<open>?\<close>, \<^verbatim>\<open>!\<close> removed and nothing else changed; and when the cleaned text is
  not empty and does not end with a terminator, the last sentence reaches the end of the
  cleaned text and stands at the end of the last chunk.
\<close>

theorem C7_chunks_hold_whole_sentences:
  "(\<exists>groups. [] \<notin> set groups \<and>
      concat groups = filter (\<lambda>s. s \<noteq> []) (sentences (cleanText rawText)) \<and>
      processedChunks rawText = map joinSentences groups) \<and>
   subseq (concat (sentences (cleanText rawText))) (cleanText rawText) \<and>
   filter (\<lambda>c. \<not> is_terminator c) (concat (sentences (cleanText rawText))) =
     filter (\<lambda>c. \<not> is_terminator c) (cleanText rawText) \<and>
   (cleanText rawText \<noteq> [] \<and> \<not> is_terminator (last (cleanText rawText)) \<longrightarrow>
      processedChunks rawText \<noteq> [] \<and>
      suffix (last (sentences (cleanText rawText))) (cleanText rawText) \<and>
      suffix (last (sentences (cleanText rawText)) @ '' '') (last (processedChunks rawText)))"
proof -
  define clean where "clean = cleanText rawText"
  have groups: "\<exists>groups. [] \<notin> set groups \<and>
      concat groups = filter (\<lambda>s. s \<noteq> []) (sentences clean) \<and>
      processedChunks rawText = map joinSentences groups \<and>
      (clean \<noteq> [] \<longrightarrow> concat groups = sentences clean)"
  proof (cases "clean = []")
    case True
    then have "processedChunks rawText = []"
      by (simp add: processedChunks_def clean_def sentences_Nil chunkSentences_empty)
    then show ?thesis using True by (intro exI [of _ "[]"]) (simp add: sentences_Nil)
  next
    case False
    then have "\<not> is_space (last clean)" unfolding clean_def by (rule last_cleanText)
    from chunkSentences_groups [OF sentences_nonspace [OF False this]]
    obtain groups where g: "[] \<notin> set groups" "concat groups = sentences clean"
      "chunkSentences (sentences clean) = map joinSentences groups" by blast
    have "filter (\<lambda>s. s \<noteq> []) (sentences clean) = sentences clean"
      using sentences_nonempty [OF False] by (simp add: filter_id_conv)
    then show ?thesis using g
      by (intro exI [of _ groups]) (simp add: processedChunks_def clean_def)
  qed
  have last: "processedChunks rawText \<noteq> [] \<and>
      suffix (last (sentences clean) @ '' '') (last (processedChunks rawText))"
    if ne: "clean \<noteq> []"
  proof -
    from groups ne obtain groups where g: "[] \<notin> set groups" "concat groups = sentences clean"
      "processedChunks rawText = map joinSentences groups" by blast
    have s: "sentences clean \<noteq> []" by (simp add: sentences_def split: list.splits)
    then have gne: "groups \<noteq> []" using g(2) by auto
    then have lg: "last groups \<noteq> []" using g(1) last_in_set by metis
    have "concat groups = concat (butlast groups) @ last groups"
      using gne by (metis append_butlast_last_id append_Nil2 concat.simps concat_append)
    then have "last (sentences clean) = last (last groups)"
      using g(2) lg by simp
    moreover have "last (processedChunks rawText) = joinSentences (last groups)"
      using g(3) gne by (simp add: last_map)
    ultimately show ?thesis using last_joinSentences [OF lg] g(3) gne by simp
  qed
  show ?thesis
    using groups last sentences_subseq [of clean] sentences_filter [of clean] sentences_last [of clean]
    unfolding clean_def by blast
qed

lemma cleanText_witness: "cleanText ''Hi. you'' = ''Hi. you''"
  by (simp add: cleanText_def m_export_def m_literal_def m_reference_def trim_def is_space_def)

lemma sentences_witness: "sentences ''Hi. you'' = [''Hi.'', '' you'']"
  by (simp add: sentences_def m_sentence_def is_terminator_def is_closer_def)

lemma processedChunks_witness: "processedChunks ''Hi. you'' = [''Hi.  you '']"
  by (simp add: processedChunks_def cleanText_witness sentences_witness chunkSentences_def
      addSentence_def flushChunk_def trim_def is_space_def)

theorem C7_chunks_hold_whole_sentences_witness:
  "cleanText ''Hi. you'' \<noteq> [] \<and> \<not> is_terminator (last (cleanText ''Hi. you'')) \<and>
   processedChunks ''Hi. you'' = map joinSentences [[''Hi.'', '' you'']] \<and>
   subseq (concat (sentences (cleanText ''Hi. you''))) (cleanText ''Hi. you'') \<and>
   suffix (last (sentences (cleanText ''Hi. you''))) (cleanText ''Hi. you'') \<and>
   suffix (last (sentences (cleanText ''Hi. you'')) @ '' '') (last (processedChunks ''Hi. you''))"
  using C7_chunks_hold_whole_sentences [of "''Hi. you''"]
  by (simp add: cleanText_witness sentences_witness processedChunks_witness
      joinSentences_def is_terminator_def)

section \<open>The pipeline: lemmas\<close>

lemma loopFrom_cases:
  "loopFrom t i cs st = (st', p) \<Longrightarrow>
     (p = Done \<and> st' = finallyBlock t st) \<or>
     (\<exists>j<length cs. p = AwaitFetch (i + j) \<and> activeRequestRef st = Some (requestId t) \<and>
        st' = st\<lparr>synthCalls := synthCalls st @ [cs ! j]\<rparr>)"
proof (induction cs arbitrary: i)
  case Nil
  then show ?case by simp
next
  case (Cons c cs)
  show ?case
  proof (cases "activeRequestRef st = Some (requestId t) \<and>
      \<not> (playingSeen t \<noteq> Some (msgId t) \<and> 0 < i) \<and> trim c = []")
    case True
    then have "loopFrom t (Suc i) cs st = (st', p)" using Cons.prems by (auto split: if_splits)
    from Cons.IH [OF this] show ?thesis by (auto intro: exI [of _ "Suc j" for j])
  next
    case False
    then show ?thesis using Cons.prems by (auto split: if_splits intro: exI [of _ 0])
  qed
qed

lemma loopAt_cases:
  assumes "loopAt t i st = (st', p)"
  shows "(p = Done \<and> st' = finallyBlock t st) \<or>
     (\<exists>j. i \<le> j \<and> j < length (chunks t) \<and> p = AwaitFetch j \<and>
        activeRequestRef st = Some (requestId t) \<and>
        st' = st\<lparr>synthCalls := synthCalls st @ [chunks t ! j]\<rparr>)"
proof -
  from loopFrom_cases [OF assms [unfolded loopAt_def]]
  consider "p = Done \<and> st' = finallyBlock t st"
    | j where "j < length (drop i (chunks t))" "p = AwaitFetch (i + j)"
        "activeRequestRef st = Some (requestId t)"
        "st' = st\<lparr>synthCalls := synthCalls st @ [drop i (chunks t) ! j]\<rparr>"
    by blast
  then show ?thesis
  proof cases
    case 1
    then show ?thesis by simp
  next
    case 2
    then have "i + j < length (chunks t)" "drop i (chunks t) ! j = chunks t ! (i + j)"
      by simp_all
    with 2 show ?thesis by (intro disjI2 exI [of _ "i + j"]) simp
  qed
qed

lemma finallyBlock_frame:
  "active (finallyBlock t st) = active st \<and> created (finallyBlock t st) = created st \<and>
   currentSourceRef (finallyBlock t st) = currentSourceRef st \<and>
   activeRequestRef (finallyBlock t st) = activeRequestRef st \<and>
   synthCalls (finallyBlock t st) = synthCalls st"
  by (simp add: finallyBlock_def resetPlayback_def)

lemma loopAt_frame:
  assumes "loopAt t i st = (st', p)"
  shows "active st' = active st \<and> created st' = created st \<and>
   currentSourceRef st' = currentSourceRef st \<and> activeRequestRef st' = activeRequestRef st \<and>
   (\<forall>j n. p \<noteq> AwaitPlay j n) \<and> p \<noteq> AwaitResume"
  using loopAt_cases [OF assms] by (auto simp: finallyBlock_frame)

lemma finallyBlock_stale:
  "activeRequestRef st \<noteq> Some (requestId t) \<Longrightarrow> finallyBlock t st = st"
  by (simp add: finallyBlock_def)


lemma onFetched_stale:
  "activeRequestRef st \<noteq> Some (requestId t) \<Longrightarrow> onFetched t i a st = (st, Done)"
  by (simp add: onFetched_def finallyBlock_stale)

lemma stop_source_token [simp]:
  "activeRequestRef (stop_source n st) = activeRequestRef st"
  by (simp add: stop_source_def)





lemma playChunk_cases:
  assumes "playChunk b rid st = (st', r)"
  shows "(st' = st \<and> (\<forall>n. r \<noteq> Started n)) \<or>
     (activeRequestRef st = Some rid \<and> r = Started (created st) \<and>
      st' = (start_source st)\<lparr>currentSourceRef := Some (created st)\<rparr>)"
  using assms by (auto simp: playChunk_def split: if_splits sum.splits)

lemma onFetched_frame:
  assumes "onFetched t i a st = (st', p)"
  shows "activeRequestRef st' = activeRequestRef st \<and>
     ((active st' = active st \<and> currentSourceRef st' = currentSourceRef st \<and>
       created st' = created st \<and> (\<forall>j n. p \<noteq> AwaitPlay j n) \<and> p \<noteq> AwaitResume) \<or>
      (activeRequestRef st = Some (requestId t) \<and> p = AwaitPlay i (created st) \<and>
       active st' = insert (created st) (active st) \<and> currentSourceRef st' = Some (created st)))"
proof (cases "activeRequestRef st \<noteq> Some (requestId t)")
  case True
  then show ?thesis using assms by (simp add: onFetched_stale)
next
  case cur: False
  show ?thesis
  proof (cases "truthy a")
    case False
    then have "loopAt t (Suc i) st = (st', p)" using assms cur by (simp add: onFetched_def)
    from loopAt_frame [OF this] show ?thesis by simp
  next
    case True
    define st1 where "st1 = (if i = 0 then st\<lparr>loadingMessageId := None, isPlaying := True\<rparr> else st)"
    have f1: "active st1 = active st" "currentSourceRef st1 = currentSourceRef st"
      "created st1 = created st" "activeRequestRef st1 = activeRequestRef st"
      by (simp_all add: st1_def)
    obtain st2 r where pc: "playChunk (the a) (requestId t) st1 = (st2, r)"
      by (cases "playChunk (the a) (requestId t) st1")
    have res: "(st', p) = (case r of Started n \<Rightarrow> (st2, AwaitPlay i n)
          | ResolvedAtOnce \<Rightarrow> loopAt t (Suc i) st2
          | Threw e \<Rightarrow> (finallyBlock t st2, Done))"
      using assms cur True pc by (simp add: onFetched_def st1_def Let_def)
    from playChunk_cases [OF pc] show ?thesis
    proof
      assume a: "st2 = st1 \<and> (\<forall>n. r \<noteq> Started n)"
      show ?thesis
      proof (cases r)
        case (Started n)
        then show ?thesis using a by simp
      next
        case ResolvedAtOnce
        then have "loopAt t (Suc i) st1 = (st', p)" using res a by simp
        from loopAt_frame [OF this] show ?thesis using f1 by simp
      next
        case (Threw e)
        then have "st' = finallyBlock t st1" "p = Done" using res a by simp_all
        then show ?thesis using f1 by (simp add: finallyBlock_frame)
      qed
    next
      assume a: "activeRequestRef st1 = Some (requestId t) \<and> r = Started (created st1) \<and>
        st2 = (start_source st1)\<lparr>currentSourceRef := Some (created st1)\<rparr>"
      then have "st' = st2" "p = AwaitPlay i (created st1)" using res by simp_all
      then show ?thesis using a f1 by (simp add: start_source_def)
    qed
  qed
qed

lemma onEnded_frame:
  assumes "onEnded t i n st = (st', p)"
  shows "activeRequestRef st' = activeRequestRef st \<and> active st' = active st - {n} \<and>
     currentSourceRef st' = currentSourceRef st \<and> created st' = created st \<and>
     (\<forall>j n. p \<noteq> AwaitPlay j n) \<and> p \<noteq> AwaitResume"
  using loopAt_frame [OF assms [unfolded onEnded_def]] by (simp add: stop_source_def)

lemma resume_frame:
  assumes "resume sig t st = (st', t')"
  shows "requestId t' = requestId t \<and> activeRequestRef st' = activeRequestRef st \<and>
    ((t' = t \<and> st' = st) \<or>
     ((\<forall>i n. pc t \<noteq> AwaitPlay i n) \<and> (\<forall>i n. pc t' \<noteq> AwaitPlay i n) \<and>
        active st' = active st \<and> currentSourceRef st' = currentSourceRef st) \<or>
     ((\<exists>i. pc t = AwaitFetch i \<and> pc t' = AwaitPlay i (created st)) \<and>
        activeRequestRef st = Some (requestId t) \<and>
        active st' = insert (created st) (active st) \<and> currentSourceRef st' = Some (created st)) \<or>
     ((\<exists>i n. pc t = AwaitPlay i n \<and> active st' = active st - {n}) \<and>
        currentSourceRef st' = currentSourceRef st \<and> (\<forall>i n. pc t' \<noteq> AwaitPlay i n)))"
proof (cases "pc t")
  case AwaitResume
  show ?thesis
  proof (cases sig)
    case ContextResumed
    obtain s p where l: "loopAt t 0 st = (s, p)" by (cases "loopAt t 0 st")
    then have "st' = s" "t' = t\<lparr>pc := p\<rparr>"
      using assms AwaitResume ContextResumed by (simp_all add: resume_def)
    then show ?thesis using loopAt_frame [OF l] AwaitResume by simp
  next
    case ContextRejected
    then have "st' = st" "t' = t\<lparr>pc := Raised\<rparr>"
      using assms AwaitResume by (simp_all add: resume_def)
    then show ?thesis using AwaitResume by simp
  qed (use assms AwaitResume in \<open>simp_all add: resume_def\<close>)
next
  case (AwaitFetch i)
  show ?thesis
  proof (cases sig)
    case (SpeechReady a)
    obtain s p where l: "onFetched t i a st = (s, p)" by (cases "onFetched t i a st")
    then have "st' = s" "t' = t\<lparr>pc := p\<rparr>"
      using assms AwaitFetch SpeechReady by (simp_all add: resume_def)
    then show ?thesis using onFetched_frame [OF l] AwaitFetch by auto
  next
    case SpeechRejected
    then have "st' = finallyBlock t st" "t' = t\<lparr>pc := Done\<rparr>"
      using assms AwaitFetch by (simp_all add: resume_def)
    then show ?thesis using AwaitFetch by (simp add: finallyBlock_frame)
  qed (use assms AwaitFetch in \<open>simp_all add: resume_def\<close>)
next
  case (AwaitPlay i n)
  show ?thesis
  proof (cases sig)
    case SourceEnded
    obtain s p where l: "onEnded t i n st = (s, p)" by (cases "onEnded t i n st")
    then have "st' = s" "t' = t\<lparr>pc := p\<rparr>"
      using assms AwaitPlay SourceEnded by (simp_all add: resume_def)
    then show ?thesis using onEnded_frame [OF l] AwaitPlay by auto
  qed (use assms AwaitPlay in \<open>simp_all add: resume_def\<close>)
next
  case Done
  then show ?thesis using assms by (cases sig) (simp_all add: resume_def)
next
  case Raised
  then show ?thesis using assms by (cases sig) (simp_all add: resume_def)
qed

lemma stopCurrent_frame:
  "active (stopCurrent st) = active st - set_option (currentSourceRef st) \<and>
   created (stopCurrent st) = created st \<and>
   currentSourceRef (stopCurrent st) = currentSourceRef st \<and>
   activeRequestRef (stopCurrent st) = activeRequestRef st \<and>
   synthCalls (stopCurrent st) = synthCalls st"
  by (simp add: stopCurrent_def stop_source_def split: option.splits)

lemma handlePlayMessage_frame:
  assumes "handlePlayMessage ps ip susp m raw now st = (st', t)"
  shows "requestId t = now \<and> activeRequestRef st' = Some now \<and>
     active st' = active st - set_option (currentSourceRef st) \<and>
     currentSourceRef st' = currentSourceRef st \<and> created st' = created st \<and>
     (\<forall>i n. pc t \<noteq> AwaitPlay i n)"
proof (cases "ps = Some m \<and> ip")
  case True
  then have "st' = resetPlayback (stopCurrent (st\<lparr>activeRequestRef := Some now\<rparr>))"
    and "requestId t = now" and "pc t = Done"
    using assms by (auto simp: handlePlayMessage_def Let_def)
  then show ?thesis by (simp add: resetPlayback_def stopCurrent_frame)
next
  case False
  define st3 where "st3 = (stopCurrent (st\<lparr>activeRequestRef := Some now\<rparr>))
      \<lparr>playingMessageId := Some m, loadingMessageId := Some m, isPlaying := False\<rparr>"
  define t0 where "t0 = \<lparr>requestId = now, msgId = m, playingSeen = ps,
               chunks = processedChunks raw, pc = Done\<rparr>"
  have f3: "active st3 = active st - set_option (currentSourceRef st)"
    "currentSourceRef st3 = currentSourceRef st" "created st3 = created st"
    "activeRequestRef st3 = Some now"
    by (simp_all add: st3_def stopCurrent_frame)
  show ?thesis
  proof (cases susp)
    case True
    then have "st' = st3" "t = t0\<lparr>pc := AwaitResume\<rparr>"
      using assms False by (auto simp: handlePlayMessage_def Let_def st3_def t0_def)
    then show ?thesis using f3 by (simp add: t0_def)
  next
    case nosusp: False
    obtain s p where l: "loopAt t0 0 st3 = (s, p)" by (cases "loopAt t0 0 st3")
    then have "st' = s" "t = t0\<lparr>pc := p\<rparr>"
      using assms False nosusp by (auto simp: handlePlayMessage_def Let_def st3_def t0_def)
    then show ?thesis using loopAt_frame [OF l] f3 by (simp add: t0_def)
  qed
qed

lemma resetApp_frame:
  "active (resetApp st) = active st - set_option (currentSourceRef st) \<and>
   created (resetApp st) = created st \<and>
   currentSourceRef (resetApp st) = currentSourceRef st \<and>
   activeRequestRef (resetApp st) = activeRequestRef st \<and>
   synthCalls (resetApp st) = synthCalls st \<and>
   playingMessageId (resetApp st) = None \<and> loadingMessageId (resetApp st) = None \<and>
   \<not> isPlaying (resetApp st)"
  by (simp add: resetApp_def resetPlayback_def stopCurrent_def stop_source_def split: option.splits)

lemma step_Play_disabled:
  "\<not> playEnabled st m \<Longrightarrow> step (Play m raw now susp) (st, ts) = (st, ts)"
  by (simp add: step_def)

lemma step_Play_enabled:
  "playEnabled st m \<Longrightarrow>
   step (Play m raw now susp) (st, ts) =
     (case handlePlayMessage (playingMessageId st) (isPlaying st) susp m raw now st
      of (st', t) \<Rightarrow> (st', ts @ [t]))"
  by (simp add: step_def)

lemma step_Reset: "step Reset (st, ts) = (resetApp st, ts)"
  by (simp add: step_def)








lemma run_snoc: "run (es @ [e]) s = step e (run es s)"
  by (simp add: run_def)


lemma quiet_trans:
  assumes "quiet a b" and "quiet b c"
  shows "quiet a c"
proof -
  from assms have b: "b = a\<lparr>active := active b\<rparr>" and c: "c = b\<lparr>active := active c\<rparr>"
    and sub: "active c \<subseteq> active a" by (auto simp: quiet_def)
  have "b\<lparr>active := active c\<rparr> = a\<lparr>active := active c\<rparr>" by (subst b) simp
  then have "c = a\<lparr>active := active c\<rparr>" using c by simp
  then show ?thesis using sub by (simp add: quiet_def)
qed

lemma quiet_fields:
  assumes "quiet st st'"
  shows "synthCalls st' = synthCalls st \<and> created st' = created st \<and>
     activeRequestRef st' = activeRequestRef st \<and> currentSourceRef st' = currentSourceRef st \<and>
     playingMessageId st' = playingMessageId st \<and> loadingMessageId st' = loadingMessageId st \<and>
     isPlaying st' = isPlaying st \<and> active st' \<subseteq> active st"
proof -
  from assms have e: "st' = st\<lparr>active := active st'\<rparr>" and s: "active st' \<subseteq> active st"
    by (simp_all add: quiet_def)
  show ?thesis using s by (subst e, simp)+
qed




lemma step_Signal_tasks:
  assumes "step (Signal k sig) (st, ts) = (st', ts')"
  shows "length ts' = length ts \<and> activeRequestRef st' = activeRequestRef st \<and>
     (\<forall>j<length ts. requestId (ts' ! j) = requestId (ts ! j) \<and> (j \<noteq> k \<longrightarrow> ts' ! j = ts ! j))"
proof (cases "k < length ts")
  case False
  then show ?thesis using assms by (auto simp: step_def)
next
  case True
  obtain s t' where r: "resume sig (ts ! k) st = (s, t')" by (cases "resume sig (ts ! k) st")
  then have e: "st' = s" "ts' = ts[k := t']" using assms True by (simp_all add: step_def)
  from resume_frame [OF r] have "requestId t' = requestId (ts ! k)"
    "activeRequestRef s = activeRequestRef st" by simp_all
  then show ?thesis using e True by (auto simp: nth_list_update)
qed

lemma step_Play_tasks:
  assumes "step (Play m raw now susp) (st, ts) = (st', ts')" and "playEnabled st m"
  shows "\<exists>t. ts' = ts @ [t] \<and> requestId t = now \<and> activeRequestRef st' = Some now \<and>
     (\<forall>i n. pc t \<noteq> AwaitPlay i n) \<and>
     active st' = active st - set_option (currentSourceRef st)"
proof -
  obtain s t where h: "handlePlayMessage (playingMessageId st) (isPlaying st) susp m raw now st = (s, t)"
    by (cases "handlePlayMessage (playingMessageId st) (isPlaying st) susp m raw now st")
  then have "st' = s" "ts' = ts @ [t]" using assms by (simp_all add: step_Play_enabled)
  then show ?thesis using handlePlayMessage_frame [OF h] by simp
qed





text \<open>A call that has ended stays as it is.\<close>

lemma resume_ended:
  "pc t = Done \<or> pc t = Raised \<Longrightarrow> resume sig t st = (st, t)"
  by (cases sig) (auto simp: resume_def)

lemma step_ended:
  assumes "k < length ts" and "pc (ts ! k) = Done \<or> pc (ts ! k) = Raised"
    and "step e (st, ts) = (st', ts')"
  shows "k < length ts' \<and> ts' ! k = ts ! k"
proof (cases e)
  case (Play m raw now susp)
  show ?thesis
  proof (cases "playEnabled st m")
    case False
    then show ?thesis using assms Play by (simp add: step_Play_disabled)
  next
    case True
    from step_Play_tasks [OF assms(3) [unfolded Play] True] assms(1) show ?thesis
      by (auto simp: nth_append)
  qed
next
  case (Signal j sig)
  show ?thesis
  proof (cases "j = k")
    case True
    then show ?thesis using assms Signal resume_ended [OF assms(2), of sig st]
      by (auto simp: step_def)
  next
    case False
    from step_Signal_tasks [OF assms(3) [unfolded Signal]] assms(1) False show ?thesis by auto
  qed
next
  case Reset
  then show ?thesis using assms by (auto simp: step_Reset)
qed

lemma ended_run:
  assumes "k < length ts" and "pc (ts ! k) = Done \<or> pc (ts ! k) = Raised"
  shows "k < length (snd (run fs (st, ts))) \<and> snd (run fs (st, ts)) ! k = ts ! k"
proof (induction fs rule: rev_induct)
  case Nil
  show ?case using assms by (simp add: run_def)
next
  case (snoc e fs)
  obtain st1 ts1 where s: "run fs (st, ts) = (st1, ts1)" by (cases "run fs (st, ts)")
  obtain st' ts' where s': "step e (st1, ts1) = (st', ts')" by (cases "step e (st1, ts1)")
  from snoc.IH s have k: "k < length ts1" "ts1 ! k = ts ! k" by simp_all
  from step_ended [OF k(1) _ s'] k(2) assms(2) show ?case using s s' by (simp add: run_snoc)
qed



text \<open>The two facts of \<^const>\<open>closures\<close> hold of every state the pipeline reaches.\<close>

lemma ui_consistent_finallyBlock: "ui_consistent st \<Longrightarrow> ui_consistent (finallyBlock t st)"
  by (simp add: ui_consistent_def finallyBlock_def resetPlayback_def)

lemma ui_consistent_loopAt:
  assumes "ui_consistent st" and "loopAt t i st = (st', p)"
  shows "ui_consistent st'"
  using loopAt_cases [OF assms(2)] ui_consistent_finallyBlock [OF assms(1), of t] assms(1)
  by (auto simp: ui_consistent_def)

lemma ui_consistent_onFetched:
  assumes "ui_consistent st" and "onFetched t i a st = (st', p)"
  shows "ui_consistent st'"
proof (cases "activeRequestRef st \<noteq> Some (requestId t)")
  case True
  then show ?thesis using assms by (simp add: onFetched_stale)
next
  case cur: False
  show ?thesis
  proof (cases "truthy a")
    case False
    then have "loopAt t (Suc i) st = (st', p)" using assms cur by (simp add: onFetched_def)
    from ui_consistent_loopAt [OF assms(1) this] show ?thesis .
  next
    case True
    define st1 where "st1 = (if i = 0 then st\<lparr>loadingMessageId := None, isPlaying := True\<rparr> else st)"
    have u1: "ui_consistent st1" using assms(1) by (simp add: st1_def ui_consistent_def)
    obtain st2 r where pc: "playChunk (the a) (requestId t) st1 = (st2, r)"
      by (cases "playChunk (the a) (requestId t) st1")
    have res: "(st', p) = (case r of Started n \<Rightarrow> (st2, AwaitPlay i n)
          | ResolvedAtOnce \<Rightarrow> loopAt t (Suc i) st2
          | Threw e \<Rightarrow> (finallyBlock t st2, Done))"
      using assms cur True pc by (simp add: onFetched_def st1_def Let_def)
    have u2: "ui_consistent st2"
      using playChunk_cases [OF pc] u1 by (auto simp: ui_consistent_def start_source_def)
    show ?thesis
    proof (cases r)
      case (Started n)
      then show ?thesis using res u2 by simp
    next
      case ResolvedAtOnce
      then have "loopAt t (Suc i) st2 = (st', p)" using res by simp
      from ui_consistent_loopAt [OF u2 this] show ?thesis .
    next
      case (Threw e)
      then show ?thesis using res ui_consistent_finallyBlock [OF u2, of t] by simp
    qed
  qed
qed

lemma resume_closure:
  assumes "ui_consistent st" and "resume sig t st = (st', t')"
  shows "ui_consistent st' \<and> (\<exists>p. t' = t\<lparr>pc := p\<rparr>)"
proof (cases "pc t")
  case AwaitResume
  show ?thesis
  proof (cases sig)
    case ContextResumed
    obtain s p where l: "loopAt t 0 st = (s, p)" by (cases "loopAt t 0 st")
    then have "st' = s" "t' = t\<lparr>pc := p\<rparr>"
      using assms AwaitResume ContextResumed by (simp_all add: resume_def)
    then show ?thesis using ui_consistent_loopAt [OF assms(1) l] by blast
  next
    case ContextRejected
    then have "st' = st" "t' = t\<lparr>pc := Raised\<rparr>"
      using assms AwaitResume by (simp_all add: resume_def)
    then show ?thesis using assms(1) by blast
  qed (use assms AwaitResume in \<open>auto simp: resume_def intro: exI [of _ "pc t"]\<close>)
next
  case (AwaitFetch i)
  show ?thesis
  proof (cases sig)
    case (SpeechReady a)
    obtain s p where l: "onFetched t i a st = (s, p)" by (cases "onFetched t i a st")
    then have "st' = s" "t' = t\<lparr>pc := p\<rparr>"
      using assms AwaitFetch SpeechReady by (simp_all add: resume_def)
    then show ?thesis using ui_consistent_onFetched [OF assms(1) l] by blast
  next
    case SpeechRejected
    then have "st' = finallyBlock t st" "t' = t\<lparr>pc := Done\<rparr>"
      using assms AwaitFetch by (simp_all add: resume_def)
    then show ?thesis using ui_consistent_finallyBlock [OF assms(1), of t] by blast
  qed (use assms AwaitFetch in \<open>auto simp: resume_def intro: exI [of _ "pc t"]\<close>)
next
  case (AwaitPlay i n)
  show ?thesis
  proof (cases sig)
    case SourceEnded
    obtain s p where l: "onEnded t i n st = (s, p)" by (cases "onEnded t i n st")
    then have e: "st' = s" "t' = t\<lparr>pc := p\<rparr>"
      using assms AwaitPlay SourceEnded by (simp_all add: resume_def)
    have "ui_consistent (stop_source n st)" using assms(1) by (simp add: ui_consistent_def stop_source_def)
    from ui_consistent_loopAt [OF this l [unfolded onEnded_def]] e show ?thesis by blast
  qed (use assms AwaitPlay in \<open>auto simp: resume_def intro: exI [of _ "pc t"]\<close>)
next
  case Done
  then have "resume sig t st = (st, t)" by (simp add: resume_ended)
  then show ?thesis using assms by (auto intro: exI [of _ "pc t"])
next
  case Raised
  then have "resume sig t st = (st, t)" by (simp add: resume_ended)
  then show ?thesis using assms by (auto intro: exI [of _ "pc t"])
qed

lemma closures_ui: "closures (st, ts) \<Longrightarrow> ui_consistent st"
  by (simp add: closures_def)

lemma handlePlayMessage_closure:
  assumes "ui_consistent st" and "playEnabled st m"
    and "handlePlayMessage (playingMessageId st) (isPlaying st) susp m raw now st = (st', t)"
  shows "ui_consistent st' \<and> (playingSeen t \<noteq> Some (msgId t) \<or> pc t = Done)"
proof (cases "playingMessageId st = Some m \<and> isPlaying st")
  case True
  then have "st' = resetPlayback (stopCurrent (st\<lparr>activeRequestRef := Some now\<rparr>))" "pc t = Done"
    using assms(3) by (auto simp: handlePlayMessage_def Let_def)
  then show ?thesis by (simp add: ui_consistent_def resetPlayback_def)
next
  case False
  have seen: "playingMessageId st \<noteq> Some m"
    using False assms(1,2) by (auto simp: ui_consistent_def playEnabled_def)
  define st3 where "st3 = (stopCurrent (st\<lparr>activeRequestRef := Some now\<rparr>))
      \<lparr>playingMessageId := Some m, loadingMessageId := Some m, isPlaying := False\<rparr>"
  define t0 where "t0 = \<lparr>requestId = now, msgId = m, playingSeen = playingMessageId st,
               chunks = processedChunks raw, pc = Done\<rparr>"
  have u3: "ui_consistent st3" by (simp add: st3_def ui_consistent_def)
  show ?thesis
  proof (cases susp)
    case True
    then have "st' = st3" "t = t0\<lparr>pc := AwaitResume\<rparr>"
      using assms(3) False by (auto simp: handlePlayMessage_def Let_def st3_def t0_def)
    then show ?thesis using u3 seen by (simp add: t0_def)
  next
    case nosusp: False
    obtain s p where l: "loopAt t0 0 st3 = (s, p)" by (cases "loopAt t0 0 st3")
    then have "st' = s" "t = t0\<lparr>pc := p\<rparr>"
      using assms(3) False nosusp by (auto simp: handlePlayMessage_def Let_def st3_def t0_def)
    then show ?thesis using ui_consistent_loopAt [OF u3 l] seen by (simp add: t0_def)
  qed
qed

lemma closures_step:
  assumes "closures (st, ts)"
  shows "closures (step e (st, ts))"
proof (cases e)
  case (Play m raw now susp)
  show ?thesis
  proof (cases "playEnabled st m")
    case False
    then show ?thesis using assms Play by (simp add: step_Play_disabled)
  next
    case True
    obtain st' t where h: "handlePlayMessage (playingMessageId st) (isPlaying st) susp m raw now st = (st', t)"
      by (cases "handlePlayMessage (playingMessageId st) (isPlaying st) susp m raw now st")
    from handlePlayMessage_closure [OF closures_ui [OF assms] True h] assms
    have "closures (st', ts @ [t])" by (simp add: closures_def)
    then show ?thesis using Play True h by (simp add: step_Play_enabled)
  qed
next
  case (Signal k sig)
  show ?thesis
  proof (cases "k < length ts")
    case False
    then show ?thesis using assms Signal by (simp add: step_def)
  next
    case True
    obtain st' t' where r: "resume sig (ts ! k) st = (st', t')"
      by (cases "resume sig (ts ! k) st")
    from resume_closure [OF closures_ui [OF assms] r] obtain p
      where u: "ui_consistent st'" and t': "t' = (ts ! k)\<lparr>pc := p\<rparr>" by blast
    have old: "list_all (\<lambda>t. playingSeen t \<noteq> Some (msgId t) \<or> pc t = Done) ts"
      using assms by (simp add: closures_def)
    then have k: "playingSeen (ts ! k) \<noteq> Some (msgId (ts ! k)) \<or> pc (ts ! k) = Done"
      using True by (simp add: list_all_length)
    have "playingSeen t' \<noteq> Some (msgId t') \<or> pc t' = Done"
    proof (cases "pc (ts ! k) = Done")
      case True
      then have "resume sig (ts ! k) st = (st, ts ! k)" by (simp add: resume_ended)
      then show ?thesis using r True by simp
    next
      case False
      then show ?thesis using k t' by simp
    qed
    then have "list_all (\<lambda>t. playingSeen t \<noteq> Some (msgId t) \<or> pc t = Done) (ts[k := t'])"
      using old unfolding list_all_length
      by (metis length_list_update nth_list_update_eq nth_list_update_neq)
    then have "closures (st', ts[k := t'])" using u by (simp add: closures_def)
    then show ?thesis using Signal True r by (simp add: step_def)
  qed
next
  case Reset
  then show ?thesis using assms resetApp_frame [of st]
    by (simp add: step_Reset closures_def ui_consistent_def)
qed

lemma closures_run: "closures (run es initial)"
proof (induction es rule: rev_induct)
  case Nil
  show ?case by (simp add: run_def initial_def closures_def ui_consistent_def)
next
  case (snoc e es)
  obtain st ts where s: "run es initial = (st, ts)" by (cases "run es initial")
  from closures_step [of st ts e] snoc.IH s show ?case by (simp add: run_snoc)
qed

text \<open>
  A call made by a click does not hold its message id in the closure, so the loop ends at
  every index but the first.
\<close>

lemma loopAt_break:
  assumes "playingSeen t \<noteq> Some (msgId t)" and "0 < i"
  shows "loopAt t i st = (finallyBlock t st, Done)"
  using assms by (cases "drop i (chunks t)") (simp_all add: loopAt_def)

lemma failed_fetch:
  assumes "playingSeen t \<noteq> Some (msgId t)" and "pc t = AwaitFetch i" and "\<not> truthy a"
  shows "resume (SpeechReady a) t st = (finallyBlock t st, t\<lparr>pc := Done\<rparr>)"
    and "resume SpeechRejected t st = (finallyBlock t st, t\<lparr>pc := Done\<rparr>)"
  using assms by (simp_all add: resume_def onFetched_def loopAt_break)






section \<open>Concrete runs\<close>

lemma processedChunks_Hi: "processedChunks ''Hi.'' = [''Hi. '']"
  by (simp add: processedChunks_def cleanText_def sentences_def chunkSentences_def addSentence_def
      flushChunk_def m_export_def m_literal_def m_reference_def m_sentence_def trim_def
      is_space_def is_terminator_def is_closer_def)

lemma decodePCM_AAAA: "decodePCM ''AAAA'' = Inr [0]"
  by (simp add: atob_AAAA decodePCM_def getInt16_def to_float_zero)

lemma m_sentence_simple:
  assumes "body \<noteq> []" and "\<forall>c\<in>set body. \<not> is_terminator c"
    and "rest = [] \<or> (\<not> is_terminator (hd rest) \<and> \<not> is_closer (hd rest))"
  shows "m_sentence (body @ CHR ''.'' # rest) = Some (Suc (length body))"
proof -
  have t: "takeWhile (\<lambda>c. \<not> is_terminator c) (body @ CHR ''.'' # rest) = body"
    using assms(2) by (simp add: takeWhile_append2 is_terminator_def)
  have d: "dropWhile (\<lambda>c. \<not> is_terminator c) (body @ CHR ''.'' # rest) = CHR ''.'' # rest"
    using assms(2) by (simp add: dropWhile_append2 is_terminator_def)
  have p: "takeWhile is_terminator (CHR ''.'' # rest) = [CHR ''.'']"
    using assms(3) by (cases rest) (simp_all add: is_terminator_def)
  have q: "dropWhile is_terminator (CHR ''.'' # rest) = rest"
    using assms(3) by (cases rest) (simp_all add: is_terminator_def)
  have c: "takeWhile is_closer rest = []"
    using assms(3) by (cases rest) simp_all
  show ?thesis
    unfolding m_sentence_def Let_def t d p q c using assms(1) by simp
qed

lemma match_all_step:
  assumes "m s = Some (Suc k)" and "s \<noteq> []"
  shows "match_all m s = take (Suc k) s # match_all m (drop (Suc k) s)"
  using assms by (cases s) simp_all

lemma longSentence_facts:
  "length (longSentence c) = 301" "set (longSentence c) = {c, CHR ''.''}"
  by (auto simp: longSentence_def)

lemma body_no_terminator:
  "\<not> is_terminator c \<Longrightarrow> \<forall>x\<in>set (CHR '' '' # replicate 300 c). \<not> is_terminator x"
  "\<not> is_terminator c \<Longrightarrow> \<forall>x\<in>set (replicate 300 c). \<not> is_terminator x"
  by (auto simp: is_terminator_def)

lemma sentences_three:
  "sentences threeSentences =
     [longSentence CHR ''a'', '' '' @ longSentence CHR ''b'', '' '' @ longSentence CHR ''c'']"
proof -
  let ?A = "replicate 300 CHR ''a''" and ?B = "CHR '' '' # replicate 300 CHR ''b''"
    and ?C = "CHR '' '' # replicate 300 CHR ''c''"
  have na: "\<not> is_terminator CHR ''a''" "\<not> is_terminator CHR ''b''" "\<not> is_terminator CHR ''c''"
    by (simp_all add: is_terminator_def)
  have sp: "\<not> is_terminator CHR '' '' \<and> \<not> is_closer CHR '' ''"
    by (simp add: is_terminator_def is_closer_def)
  have eq: "threeSentences = ?A @ CHR ''.'' # (?B @ CHR ''.'' # (?C @ CHR ''.'' # []))"
    by (simp add: threeSentences_def longSentence_def)
  have m1: "m_sentence (?A @ CHR ''.'' # (?B @ CHR ''.'' # (?C @ CHR ''.'' # []))) = Some (Suc (length ?A))"
    using body_no_terminator(2) [OF na(1)] sp by (intro m_sentence_simple) simp_all
  have m2: "m_sentence (?B @ CHR ''.'' # (?C @ CHR ''.'' # [])) = Some (Suc (length ?B))"
    using body_no_terminator(1) [OF na(2)] sp by (intro m_sentence_simple) simp_all
  have m3: "m_sentence (?C @ CHR ''.'' # []) = Some (Suc (length ?C))"
    using body_no_terminator(1) [OF na(3)] by (intro m_sentence_simple) simp_all
  have s3: "match_all m_sentence (?C @ CHR ''.'' # []) = [?C @ ''.'']"
    using match_all_step [where m = m_sentence and s = "?C @ CHR ''.'' # []", OF m3] by simp
  have s2: "match_all m_sentence (?B @ CHR ''.'' # (?C @ CHR ''.'' # [])) = [?B @ ''.'', ?C @ ''.'']"
    using match_all_step [where m = m_sentence and s = "?B @ CHR ''.'' # (?C @ CHR ''.'' # [])", OF m2]
      s3 by simp
  have "match_all m_sentence threeSentences = [?A @ ''.'', ?B @ ''.'', ?C @ ''.'']"
    unfolding eq
    using match_all_step [where m = m_sentence
        and s = "?A @ CHR ''.'' # (?B @ CHR ''.'' # (?C @ CHR ''.'' # []))", OF m1] s2 by simp
  then show ?thesis by (simp add: sentences_def longSentence_def)
qed

lemma trim_has_nonspace: "\<exists>c\<in>set s. \<not> is_space c \<Longrightarrow> trim s \<noteq> []"
  by (simp add: trim_Nil_iff)

lemma processedChunks_three:
  "processedChunks threeSentences =
     [longSentence CHR ''a'' @ '' '', '' '' @ longSentence CHR ''b'' @ '' '',
      '' '' @ longSentence CHR ''c'' @ '' '']"
proof -
  have plain: "\<forall>c\<in>set threeSentences. \<forall>cs. m_export (c # cs) = None \<and>
      m_literal ''**'' (c # cs) = None \<and> m_literal ''##'' (c # cs) = None \<and>
      m_reference (c # cs) = None \<and> m_literal [CHR 0x60] (c # cs) = None"
    by (auto simp: threeSentences_def longSentence_facts m_export_def m_literal_def m_reference_def)
  have "cleanText threeSentences = trim threeSentences"
    unfolding cleanText_def using plain by (simp add: replace_all_id)
  also have "\<dots> = threeSentences"
    by (simp add: trim_def threeSentences_def longSentence_def is_space_def)
  finally have clean: "cleanText threeSentences = threeSentences" .
  have t1: "trim (longSentence CHR ''a'' @ '' '') \<noteq> []"
    by (rule trim_has_nonspace) (simp add: longSentence_facts is_space_def)
  have t2: "trim ('' '' @ longSentence CHR ''b'' @ '' '') \<noteq> []"
    by (rule trim_has_nonspace) (simp add: longSentence_facts is_space_def)
  have t3: "trim ('' '' @ longSentence CHR ''c'' @ '' '') \<noteq> []"
    by (rule trim_has_nonspace) (simp add: longSentence_facts is_space_def)
  show ?thesis
    using t1 t2 t3
    by (simp add: processedChunks_def clean sentences_three chunkSentences_def addSentence_def
        flushChunk_def longSentence_facts)
qed

lemma chunks_three_nonblank:
  "trim (longSentence CHR ''a'' @ '' '') \<noteq> []"
  "trim ('' '' @ longSentence CHR ''b'' @ '' '') \<noteq> []"
  "trim ('' '' @ longSentence CHR ''c'' @ '' '') \<noteq> []"
  by (rule trim_has_nonspace, simp add: longSentence_facts is_space_def)+

lemmas eval_defs = step_def playEnabled_def handlePlayMessage_def loopAt_def stopCurrent_def
  resetApp_def resume_def onFetched_def onEnded_def playChunk_def finallyBlock_def
  resetPlayback_def start_source_def stop_source_def truthy_def initial_def Let_def


lemma run_loading:
  "run [Play ''m'' ''Hi.'' 1 False] initial =
   (\<lparr>active = {}, created = 0, activeRequestRef = Some 1, currentSourceRef = None,
       playingMessageId = Some ''m'', loadingMessageId = Some ''m'', isPlaying = False,
       synthCalls = [''Hi. '']\<rparr>,
    [\<lparr>requestId = 1, msgId = ''m'', playingSeen = None, chunks = [''Hi. ''], pc = AwaitFetch 0\<rparr>])"
  by (simp add: run_def eval_defs processedChunks_Hi trim_def is_space_def)

lemma run_failed_single_chunk:
  "run [Play ''m'' ''Hi.'' 1 False, Signal 0 (SpeechReady None)] initial =
   (\<lparr>active = {}, created = 0, activeRequestRef = Some 1, currentSourceRef = None,
       playingMessageId = None, loadingMessageId = None, isPlaying = False,
       synthCalls = [''Hi. '']\<rparr>,
    [\<lparr>requestId = 1, msgId = ''m'', playingSeen = None, chunks = [''Hi. ''], pc = Done\<rparr>])"
  by (simp add: run_def eval_defs processedChunks_Hi trim_def is_space_def)

lemma run_rejected_single_chunk:
  "run [Play ''m'' ''Hi.'' 1 False, Signal 0 SpeechRejected] initial =
   (\<lparr>active = {}, created = 0, activeRequestRef = Some 1, currentSourceRef = None,
       playingMessageId = None, loadingMessageId = None, isPlaying = False,
       synthCalls = [''Hi. '']\<rparr>,
    [\<lparr>requestId = 1, msgId = ''m'', playingSeen = None, chunks = [''Hi. ''], pc = Done\<rparr>])"
  by (simp add: run_def eval_defs processedChunks_Hi trim_def is_space_def)


lemma run_completed:
  "run [Play ''m'' ''Hi.'' 1 False, Signal 0 (SpeechReady (Some ''AAAA'')), Signal 0 SourceEnded]
     initial =
   (\<lparr>active = {}, created = 1, activeRequestRef = Some 1, currentSourceRef = Some 0,
       playingMessageId = None, loadingMessageId = None, isPlaying = False,
       synthCalls = [''Hi. '']\<rparr>,
    [\<lparr>requestId = 1, msgId = ''m'', playingSeen = None, chunks = [''Hi. ''], pc = Done\<rparr>])"
  by (simp add: run_def eval_defs processedChunks_Hi decodePCM_AAAA trim_def is_space_def)

lemma run_stopped:
  "run [Play ''m'' ''Hi.'' 1 False, Signal 0 (SpeechReady (Some ''AAAA'')),
        Play ''m'' ''Hi.'' 2 False] initial =
   (\<lparr>active = {}, created = 1, activeRequestRef = Some 2, currentSourceRef = Some 0,
       playingMessageId = None, loadingMessageId = None, isPlaying = False,
       synthCalls = [''Hi. '']\<rparr>,
    [\<lparr>requestId = 1, msgId = ''m'', playingSeen = None, chunks = [''Hi. ''], pc = AwaitPlay 0 0\<rparr>,
     \<lparr>requestId = 2, msgId = ''m'', playingSeen = Some ''m'', chunks = [''Hi. ''], pc = Done\<rparr>])"
  by (simp add: run_def eval_defs processedChunks_Hi decodePCM_AAAA trim_def is_space_def)


lemma run_click_while_loading:
  "run [Play ''m'' ''Hi.'' 1 False, Play ''m'' ''Hi.'' 2 False] initial =
   run [Play ''m'' ''Hi.'' 1 False] initial"
  "run [Play ''m'' ''Hi.'' 1 False, Play ''n'' ''Hi.'' 2 False] initial =
   run [Play ''m'' ''Hi.'' 1 False] initial"
  by (simp_all add: run_def eval_defs processedChunks_Hi trim_def is_space_def)



lemma processedChunks_blank:
  assumes "trim rawText = []"
  shows "processedChunks rawText = []"
  using assms by (intro processedChunks_spaces) (simp add: trim_Nil_iff)

lemma trim_two_spaces: "trim ''  '' = []"
  by (simp add: trim_def is_space_def)

lemma run_blank_suspended:
  "run [Play ''m'' ''  '' 1 True] initial =
   (\<lparr>active = {}, created = 0, activeRequestRef = Some 1, currentSourceRef = None,
       playingMessageId = Some ''m'', loadingMessageId = Some ''m'', isPlaying = False,
       synthCalls = []\<rparr>,
    [\<lparr>requestId = 1, msgId = ''m'', playingSeen = None, chunks = [], pc = AwaitResume\<rparr>])"
  by (simp add: run_def eval_defs processedChunks_blank [OF trim_two_spaces])

lemma run_blank_rejected:
  "run [Play ''m'' ''  '' 1 True, Signal 0 ContextRejected] initial =
   (\<lparr>active = {}, created = 0, activeRequestRef = Some 1, currentSourceRef = None,
       playingMessageId = Some ''m'', loadingMessageId = Some ''m'', isPlaying = False,
       synthCalls = []\<rparr>,
    [\<lparr>requestId = 1, msgId = ''m'', playingSeen = None, chunks = [], pc = Raised\<rparr>])"
  by (simp add: run_def eval_defs processedChunks_blank [OF trim_two_spaces])

lemma run_three_first_failed:
  "run [Play ''m'' threeSentences 1 False, Signal 0 (SpeechReady None)] initial =
   (\<lparr>active = {}, created = 0, activeRequestRef = Some 1, currentSourceRef = None,
       playingMessageId = None, loadingMessageId = None, isPlaying = False,
       synthCalls = [longSentence CHR ''a'' @ '' '']\<rparr>,
    [\<lparr>requestId = 1, msgId = ''m'', playingSeen = None,
        chunks = processedChunks threeSentences, pc = Done\<rparr>])"
proof -
  note nb = chunks_three_nonblank
  have s1: "run [Play ''m'' threeSentences 1 False] initial =
     (\<lparr>active = {}, created = 0, activeRequestRef = Some 1, currentSourceRef = None,
       playingMessageId = Some ''m'', loadingMessageId = Some ''m'', isPlaying = False,
       synthCalls = [longSentence CHR ''a'' @ '' '']\<rparr>,
      [\<lparr>requestId = 1, msgId = ''m'', playingSeen = None,
        chunks = processedChunks threeSentences, pc = AwaitFetch 0\<rparr>])"
    using nb by (simp add: run_def eval_defs processedChunks_three)
  have "run ([Play ''m'' threeSentences 1 False] @ [Signal 0 (SpeechReady None)]) initial =
   (\<lparr>active = {}, created = 0, activeRequestRef = Some 1, currentSourceRef = None,
       playingMessageId = None, loadingMessageId = None, isPlaying = False,
       synthCalls = [longSentence CHR ''a'' @ '' '']\<rparr>,
    [\<lparr>requestId = 1, msgId = ''m'', playingSeen = None,
        chunks = processedChunks threeSentences, pc = Done\<rparr>])"
    unfolding run_snoc s1 using nb by (simp add: eval_defs processedChunks_three)
  then show ?thesis by simp
qed

lemma run_three_first_played:
  "run [Play ''m'' threeSentences 1 False, Signal 0 (SpeechReady (Some ''AAAA'')),
        Signal 0 SourceEnded] initial =
   (\<lparr>active = {}, created = 1, activeRequestRef = Some 1, currentSourceRef = Some 0,
       playingMessageId = None, loadingMessageId = None, isPlaying = False,
       synthCalls = [longSentence CHR ''a'' @ '' '']\<rparr>,
    [\<lparr>requestId = 1, msgId = ''m'', playingSeen = None,
        chunks = processedChunks threeSentences, pc = Done\<rparr>])"
proof -
  note nb = chunks_three_nonblank
  have s1: "run [Play ''m'' threeSentences 1 False] initial =
     (\<lparr>active = {}, created = 0, activeRequestRef = Some 1, currentSourceRef = None,
       playingMessageId = Some ''m'', loadingMessageId = Some ''m'', isPlaying = False,
       synthCalls = [longSentence CHR ''a'' @ '' '']\<rparr>,
      [\<lparr>requestId = 1, msgId = ''m'', playingSeen = None,
        chunks = processedChunks threeSentences, pc = AwaitFetch 0\<rparr>])"
    using nb by (simp add: run_def eval_defs processedChunks_three)
  have s2: "run ([Play ''m'' threeSentences 1 False] @ [Signal 0 (SpeechReady (Some ''AAAA''))]) initial =
     (\<lparr>active = {0}, created = 1, activeRequestRef = Some 1, currentSourceRef = Some 0,
       playingMessageId = Some ''m'', loadingMessageId = None, isPlaying = True,
       synthCalls = [longSentence CHR ''a'' @ '' '']\<rparr>,
      [\<lparr>requestId = 1, msgId = ''m'', playingSeen = None,
        chunks = processedChunks threeSentences, pc = AwaitPlay 0 0\<rparr>])"
    unfolding run_snoc s1 by (simp add: eval_defs decodePCM_AAAA)
  have "run (([Play ''m'' threeSentences 1 False] @ [Signal 0 (SpeechReady (Some ''AAAA''))]) @
      [Signal 0 SourceEnded]) initial =
   (\<lparr>active = {}, created = 1, activeRequestRef = Some 1, currentSourceRef = Some 0,
       playingMessageId = None, loadingMessageId = None, isPlaying = False,
       synthCalls = [longSentence CHR ''a'' @ '' '']\<rparr>,
    [\<lparr>requestId = 1, msgId = ''m'', playingSeen = None,
        chunks = processedChunks threeSentences, pc = Done\<rparr>])"
    unfolding run_snoc [of "[Play ''m'' threeSentences 1 False] @ [Signal 0 (SpeechReady (Some ''AAAA''))]"] s2
    using nb by (simp add: eval_defs processedChunks_three)
  then show ?thesis by simp
qed

section \<open>Claims on the pipeline\<close>

text \<open>
  C1, as the specification states it, does not hold: the pipeline has no status for a
  failed request and passes no failure on to its caller. A request whose synthesis
  yields no audio, or whose synthesis call raises, ends with the call returned and the
  status idle, which is also how a request ends that was played to its end. The same
  holds for a text of three chunks whose first synthesis fails; no further chunk is
  fetched.
\<close>

theorem C1_failure_ends_idle_not_failed:
  "statusOf (fst (run [Play ''m'' ''Hi.'' 1 False, Signal 0 (SpeechReady None)] initial)) ''m'' = Idle \<and>
   map pc (snd (run [Play ''m'' ''Hi.'' 1 False, Signal 0 (SpeechReady None)] initial)) = [Done] \<and>
   statusOf (fst (run [Play ''m'' ''Hi.'' 1 False, Signal 0 SpeechRejected] initial)) ''m'' = Idle \<and>
   map pc (snd (run [Play ''m'' ''Hi.'' 1 False, Signal 0 SpeechRejected] initial)) = [Done] \<and>
   statusOf (fst (run [Play ''m'' ''Hi.'' 1 False, Signal 0 (SpeechReady (Some ''AAAA'')),
      Signal 0 SourceEnded] initial)) ''m'' = Idle \<and>
   map pc (snd (run [Play ''m'' ''Hi.'' 1 False, Signal 0 (SpeechReady (Some ''AAAA'')),
      Signal 0 SourceEnded] initial)) = [Done] \<and>
   statusOf (fst (run [Play ''m'' threeSentences 1 False, Signal 0 (SpeechReady None)] initial)) ''m''
     = Idle \<and>
   map pc (snd (run [Play ''m'' threeSentences 1 False, Signal 0 (SpeechReady None)] initial)) = [Done] \<and>
   synthCalls (fst (run [Play ''m'' threeSentences 1 False, Signal 0 (SpeechReady None)] initial)) =
     [longSentence CHR ''a'' @ '' '']"
  unfolding run_failed_single_chunk run_rejected_single_chunk run_completed run_three_first_failed
  by (simp add: statusOf_def)

text \<open>
  C1, amended. In every state the pipeline reaches, if the synthesis call for chunk \<open>i\<close>
  of a request yields no audio or raises, the request ends there: the call returns (it
  does not raise), no further chunk is fetched then or later, no source is made, and
  the \<^verbatim>\<open>finally\<close> block runs, which resets the status of every message to idle when
  the request holds the current token and changes nothing otherwise.
\<close>

theorem C1_failed_chunk_ends_request:
  assumes "run es initial = (st, ts)" and "k < length ts" and "pc (ts ! k) = AwaitFetch i"
    and "\<not> truthy audioData"
  shows "step (Signal k (SpeechReady audioData)) (st, ts) =
       (finallyBlock (ts ! k) st, ts[k := (ts ! k)\<lparr>pc := Done\<rparr>]) \<and>
     step (Signal k SpeechRejected) (st, ts) =
       (finallyBlock (ts ! k) st, ts[k := (ts ! k)\<lparr>pc := Done\<rparr>]) \<and>
     synthCalls (finallyBlock (ts ! k) st) = synthCalls st \<and>
     created (finallyBlock (ts ! k) st) = created st \<and>
     active (finallyBlock (ts ! k) st) = active st \<and>
     (if activeRequestRef st = Some (requestId (ts ! k))
      then \<forall>m. statusOf (finallyBlock (ts ! k) st) m = Idle
      else finallyBlock (ts ! k) st = st) \<and>
     (\<forall>fs. pc (snd (run fs (finallyBlock (ts ! k) st, ts[k := (ts ! k)\<lparr>pc := Done\<rparr>])) ! k) = Done)"
proof -
  have "closures (st, ts)" using closures_run [of es] assms(1) by simp
  then have "playingSeen (ts ! k) \<noteq> Some (msgId (ts ! k)) \<or> pc (ts ! k) = Done"
    using assms(2) by (simp add: closures_def list_all_length)
  then have seen: "playingSeen (ts ! k) \<noteq> Some (msgId (ts ! k))" using assms(3) by simp
  note f = failed_fetch [OF seen assms(3,4), of st]
  have a: "step (Signal k (SpeechReady audioData)) (st, ts) =
       (finallyBlock (ts ! k) st, ts[k := (ts ! k)\<lparr>pc := Done\<rparr>])"
    using assms(2) f(1) by (simp add: step_def)
  have b: "step (Signal k SpeechRejected) (st, ts) =
       (finallyBlock (ts ! k) st, ts[k := (ts ! k)\<lparr>pc := Done\<rparr>])"
    using assms(2) f(2) by (simp add: step_def)
  have c: "if activeRequestRef st = Some (requestId (ts ! k))
      then \<forall>m. statusOf (finallyBlock (ts ! k) st) m = Idle
      else finallyBlock (ts ! k) st = st"
    by (simp add: finallyBlock_def resetPlayback_def statusOf_def)
  have d: "pc (snd (run fs (finallyBlock (ts ! k) st, ts[k := (ts ! k)\<lparr>pc := Done\<rparr>])) ! k) = Done"
    for fs
    using ended_run [of k "ts[k := (ts ! k)\<lparr>pc := Done\<rparr>]" fs "finallyBlock (ts ! k) st"] assms(2)
    by simp
  show ?thesis using a b c d finallyBlock_frame [of "ts ! k" st] by simp
qed

theorem C1_failed_chunk_ends_request_witness:
  "0 < length (snd (run [Play ''m'' ''Hi.'' 1 False] initial)) \<and>
   pc (snd (run [Play ''m'' ''Hi.'' 1 False] initial) ! 0) = AwaitFetch 0 \<and> \<not> truthy None \<and>
   step (Signal 0 (SpeechReady None)) (run [Play ''m'' ''Hi.'' 1 False] initial) =
     (\<lparr>active = {}, created = 0, activeRequestRef = Some 1, currentSourceRef = None,
       playingMessageId = None, loadingMessageId = None, isPlaying = False,
       synthCalls = [''Hi. '']\<rparr>,
      [\<lparr>requestId = 1, msgId = ''m'', playingSeen = None, chunks = [''Hi. ''], pc = Done\<rparr>])"
proof -
  obtain st ts where s: "run [Play ''m'' ''Hi.'' 1 False] initial = (st, ts)"
    by (cases "run [Play ''m'' ''Hi.'' 1 False] initial")
  have h: "0 < length ts" "pc (ts ! 0) = AwaitFetch 0" "\<not> truthy None"
    using s unfolding run_loading by (auto simp: truthy_def)
  from C1_failed_chunk_ends_request [OF s h]
  have "step (Signal 0 (SpeechReady None)) (st, ts) =
       (finallyBlock (ts ! 0) st, ts[0 := (ts ! 0)\<lparr>pc := Done\<rparr>])" by blast
  then show ?thesis using h s unfolding run_loading
    by (auto simp: finallyBlock_def resetPlayback_def)
qed







text \<open>
  C8, as the specification states it, does not hold when the audio context is suspended:
  the handler sets the status to loading and awaits \<^verbatim>\<open>audioContext.resume()\<close> before it
  looks at the text. After a click with a blank text the status is loading, not idle, and
  the call is in flight; and when \<^verbatim>\<open>resume()\<close> rejects, the call ends with that
  exception and the status stays loading, with the button disabled.
\<close>

theorem C8_blank_text_waits_for_resume:
  "trim ''  '' = [] \<and>
   statusOf (fst (run [Play ''m'' ''  '' 1 True] initial)) ''m'' = Loading \<and>
   map pc (snd (run [Play ''m'' ''  '' 1 True] initial)) = [AwaitResume] \<and>
   statusOf (fst (run [Play ''m'' ''  '' 1 True, Signal 0 ContextRejected] initial)) ''m'' = Loading \<and>
   map pc (snd (run [Play ''m'' ''  '' 1 True, Signal 0 ContextRejected] initial)) = [Raised] \<and>
   playEnabled (fst (run [Play ''m'' ''  '' 1 True, Signal 0 ContextRejected] initial)) ''m'' = False"
  unfolding run_blank_suspended run_blank_rejected
  by (simp add: statusOf_def playEnabled_def trim_two_spaces)

text \<open>
  C8, amended. Invoking play with a text that is empty or white space only yields zero
  chunks, and no synthesis call is made and no source is created. When the audio context
  is running, the call returns at once with the status of every message idle, and so
  it does when it is the click that stops the playing message. Otherwise the context is
  suspended: the status of the message is loading and the call awaits
  \<^verbatim>\<open>audioContext.resume()\<close>; once that resolves, the call returns through
  \<^verbatim>\<open>finally\<close>, with no synthesis call, and the status of every message is idle.
\<close>

theorem C8_blank_text_makes_no_call:
  assumes "trim rawText = []"
  shows "processedChunks rawText = [] \<and>
     (case handlePlayMessage ps ip False m rawText now st of (st', t) \<Rightarrow>
        pc t = Done \<and> synthCalls st' = synthCalls st \<and> created st' = created st \<and>
        (\<forall>m'. statusOf st' m' = Idle)) \<and>
     (case handlePlayMessage ps ip True m rawText now st of (st', t) \<Rightarrow>
        synthCalls st' = synthCalls st \<and> created st' = created st \<and>
        (if ps = Some m \<and> ip then pc t = Done \<and> (\<forall>m'. statusOf st' m' = Idle)
         else pc t = AwaitResume \<and> statusOf st' m = Loading \<and>
              activeRequestRef st' = Some (requestId t) \<and>
              (\<forall>st''. resume ContextResumed t st'' = (finallyBlock t st'', t\<lparr>pc := Done\<rparr>) \<and>
                 synthCalls (finallyBlock t st'') = synthCalls st'' \<and>
                 created (finallyBlock t st'') = created st'') \<and>
              (\<forall>m'. statusOf (finallyBlock t st') m' = Idle)))"
proof -
  note c = processedChunks_blank [OF assms]
  have a: "case handlePlayMessage ps ip False m rawText now st of (st', t) \<Rightarrow>
        pc t = Done \<and> synthCalls st' = synthCalls st \<and> created st' = created st \<and>
        (\<forall>m'. statusOf st' m' = Idle)"
    by (simp add: handlePlayMessage_def Let_def c loopAt_def finallyBlock_def resetPlayback_def
        stopCurrent_frame statusOf_def)
  have b: "case handlePlayMessage ps ip True m rawText now st of (st', t) \<Rightarrow>
        synthCalls st' = synthCalls st \<and> created st' = created st \<and>
        (if ps = Some m \<and> ip then pc t = Done \<and> (\<forall>m'. statusOf st' m' = Idle)
         else pc t = AwaitResume \<and> statusOf st' m = Loading \<and>
              activeRequestRef st' = Some (requestId t) \<and>
              (\<forall>st''. resume ContextResumed t st'' = (finallyBlock t st'', t\<lparr>pc := Done\<rparr>) \<and>
                 synthCalls (finallyBlock t st'') = synthCalls st'' \<and>
                 created (finallyBlock t st'') = created st'') \<and>
              (\<forall>m'. statusOf (finallyBlock t st') m' = Idle))"
    by (simp add: handlePlayMessage_def Let_def c loopAt_def finallyBlock_def resetPlayback_def
        stopCurrent_frame statusOf_def resume_def)
  show ?thesis using c a b by blast
qed

theorem C8_blank_text_makes_no_call_witness:
  "trim ''  '' = [] \<and> processedChunks ''  '' = [] \<and>
   handlePlayMessage None False False ''m'' ''  '' 1 (fst initial) =
     (\<lparr>active = {}, created = 0, activeRequestRef = Some 1, currentSourceRef = None,
        playingMessageId = None, loadingMessageId = None, isPlaying = False, synthCalls = []\<rparr>,
      \<lparr>requestId = 1, msgId = ''m'', playingSeen = None, chunks = [], pc = Done\<rparr>) \<and>
   run [Play ''m'' ''  '' 1 True, Signal 0 ContextResumed] initial =
     (\<lparr>active = {}, created = 0, activeRequestRef = Some 1, currentSourceRef = None,
        playingMessageId = None, loadingMessageId = None, isPlaying = False, synthCalls = []\<rparr>,
      [\<lparr>requestId = 1, msgId = ''m'', playingSeen = None, chunks = [], pc = Done\<rparr>])"
proof -
  note t = trim_two_spaces
  from C8_blank_text_makes_no_call [OF t, where ps = None and ip = False and m = "''m''" and now = 1
      and st = "fst initial"]
  have c: "processedChunks ''  '' = []" by simp
  have 1: "handlePlayMessage None False False ''m'' ''  '' 1 (fst initial) =
     (\<lparr>active = {}, created = 0, activeRequestRef = Some 1, currentSourceRef = None,
        playingMessageId = None, loadingMessageId = None, isPlaying = False, synthCalls = []\<rparr>,
      \<lparr>requestId = 1, msgId = ''m'', playingSeen = None, chunks = [], pc = Done\<rparr>)"
    using c by (simp add: handlePlayMessage_def Let_def loopAt_def finallyBlock_def resetPlayback_def
        stopCurrent_def initial_def)
  have 2: "run [Play ''m'' ''  '' 1 True, Signal 0 ContextResumed] initial =
     (\<lparr>active = {}, created = 0, activeRequestRef = Some 1, currentSourceRef = None,
        playingMessageId = None, loadingMessageId = None, isPlaying = False, synthCalls = []\<rparr>,
      [\<lparr>requestId = 1, msgId = ''m'', playingSeen = None, chunks = [], pc = Done\<rparr>])"
    using c by (simp add: run_def eval_defs)
  show ?thesis using t c 1 2 by simp
qed


section \<open>Claims on the voice agent\<close>

text \<open>
  C9: when the session is listening and the recogniser ends with an empty transcript,
  the status stays listening, nothing else of the state changes and the recogniser is
  started again; the \<^verbatim>\<open>no-speech\<close> error changes nothing, and the end of the session
  that follows it re-arms the recogniser in the same way.
\<close>

theorem C9_empty_result_rearms_recognizer:
  assumes "status v = Listening" and "r < length (recognizers v)"
    and "trim (transcriptRef v) = []"
  shows "onend r v = v\<lparr>recognizers := (recognizers v)[r := True]\<rparr> \<and>
     status (onend r v) = Listening \<and> recognizers (onend r v) ! r \<and>
     onerror ''no-speech'' v = v \<and> onend r (onerror ''no-speech'' v) = onend r v"
  using assms by (simp add: onend_def onerror_def recognition_start_def Let_def)

theorem C9_empty_result_rearms_recognizer_witness:
  "status (onstart voiceMounted) = Listening \<and> 0 < length (recognizers (onstart voiceMounted)) \<and>
   trim (transcriptRef (onstart voiceMounted)) = [] \<and>
   recognizers (onstart voiceMounted) = [True] \<and>
   onend 0 (onstart voiceMounted) = onstart voiceMounted \<and>
   onend 0 (onerror ''no-speech'' (onstart voiceMounted)) = onstart voiceMounted"
proof -
  have v: "onstart voiceMounted =
     \<lparr>status = Listening, transcript = [], aiResponseText = [], transcriptRef = [],
      recognizers = [True], recognitionRef = Some 0, audioContextRef = True,
      chatCalls = [], ttsCalls = [], timers = 0\<rparr>"
    by (simp add: voiceMounted_def voiceInitial_def startListening_def recognition_start_def
        onstart_def Let_def)
  have a: "status (onstart voiceMounted) = Listening" "0 < length (recognizers (onstart voiceMounted))"
    "trim (transcriptRef (onstart voiceMounted)) = []"
    unfolding v by (simp_all add: trim_def)
  from C9_empty_result_rearms_recognizer [OF a] a show ?thesis
    unfolding v by simp
qed

end
